theory Spec2Isabelle
  imports Main "HOL-Library.Sublist" "HOL-Library.AList"
begin

section \<open>JavaScript strings\<close>

text \<open>
  A JavaScript string is modelled as a \<^typ>\<open>string\<close>: every \<^typ>\<open>char\<close> is one code unit,
  so the model covers the strings whose code units are below 256. The character classes
  below are the ECMAScript ones cut down to that range.
\<close>

definition is_line_terminator :: "char \<Rightarrow> bool" where
  \<comment> \<open>LineTerminator: LF and CR; the characters the regular expression atom \<open>.\<close> refuses.\<close>
  "is_line_terminator c \<longleftrightarrow> c = CHR 0x0A \<or> c = CHR 0x0D"

definition is_white_space :: "char \<Rightarrow> bool" where
  \<comment> \<open>WhiteSpace and LineTerminator (TAB, LF, VT, FF, CR, SP, NBSP): what \<open>\s\<close> matches
     and what \<open>String.prototype.trim\<close> strips.\<close>
  "is_white_space c \<longleftrightarrow>
     c = CHR 0x09 \<or> c = CHR 0x0A \<or> c = CHR 0x0B \<or> c = CHR 0x0C \<or> c = CHR 0x0D
     \<or> c = CHR 0x20 \<or> c = CHR 0xA0"

definition trim :: "string \<Rightarrow> string" where
  "trim s = rev (dropWhile is_white_space (rev (dropWhile is_white_space s)))"

definition toLowerCase_char :: "char \<Rightarrow> char" where
  \<comment> \<open>A..Z and the Latin-1 capitals (all of 0xC0..0xDE but the multiplication sign).\<close>
  "toLowerCase_char c =
     (let n = (of_char c :: nat)
      in if (65 \<le> n \<and> n \<le> 90) \<or> (192 \<le> n \<and> n \<le> 222 \<and> n \<noteq> 215)
         then char_of (n + 32) else c)"

definition toLowerCase :: "string \<Rightarrow> string" where
  "toLowerCase s = map toLowerCase_char s"

definition endsWith :: "string \<Rightarrow> string \<Rightarrow> bool" where
  "endsWith s x \<longleftrightarrow> prefix (rev x) (rev s)"

fun includes_str :: "string \<Rightarrow> string \<Rightarrow> bool" where
  \<comment> \<open>\<open>s.includes(x)\<close>: \<open>x\<close> occurs in \<open>s\<close> as a contiguous run.\<close>
  "includes_str [] x = (x = [])"
| "includes_str (c # s) x = (prefix x (c # s) \<or> includes_str s x)"

fun join :: "string \<Rightarrow> string list \<Rightarrow> string" where
  \<comment> \<open>\<open>xs.join(sep)\<close> on an array of strings.\<close>
  "join sep [] = []"
| "join sep [x] = x"
| "join sep (x # y # ys) = x @ sep @ join sep (y # ys)"

fun flatMap :: "('a \<Rightarrow> 'b list) \<Rightarrow> 'a list \<Rightarrow> 'b list" where
  \<comment> \<open>\<open>Array.prototype.flatMap\<close>: the callback's arrays, one after the other.\<close>
  "flatMap f [] = []"
| "flatMap f (x # xs) = f x @ flatMap f xs"

section \<open>JSON values\<close>

text \<open>
  A value that came over the wire as JSON. The numbers of the model are the integers (a
  JavaScript number is a double: the model is exact on the safe integers, which JavaScript
  prints digit for digit); an object is the list of its own properties in enumeration order.
\<close>

datatype json =
    JNull
  | JBool bool
  | JNum int
  | JStr string
  | JArr "json list"
  | JObj "(string \<times> json) list"

subsection \<open>\<open>JSON.stringify\<close>\<close>

text \<open>
  \<open>JSON.stringify(value, null, space)\<close> as ECMA-262 defines it on such values:
  \<open>QuoteJSONString\<close> for strings and property names, \<open>SerializeJSONProperty\<close> with the
  gap and the current indentation for the rest.
\<close>

definition digit_char :: "nat \<Rightarrow> char" where
  \<comment> \<open>the digit of a value below 16\<close>
  "digit_char d = ''0123456789abcdef'' ! d"

fun show_nat :: "nat \<Rightarrow> string" where
  \<comment> \<open>decimal digits, most significant first\<close>
  "show_nat n = (if n < 10 then [digit_char n] else show_nat (n div 10) @ [digit_char (n mod 10)])"

declare show_nat.simps [simp del]

definition show_int :: "int \<Rightarrow> string" where
  \<comment> \<open>The decimal digits of an integer, as JavaScript prints a number below \<open>10^21\<close> in
     size; from there on JavaScript prints an exponent, which is outside this model.\<close>
  "show_int i = (if i < 0 then CHR ''-'' # show_nat (nat (- i)) else show_nat (nat i))"

definition quote_char :: "char \<Rightarrow> string" where
  \<comment> \<open>the two-character escapes, \<open>\u00XX\<close> for the other control characters, the
     character itself otherwise\<close>
  "quote_char c =
     (if c = CHR 0x08 then [CHR 0x5C, CHR ''b'']
      else if c = CHR 0x09 then [CHR 0x5C, CHR ''t'']
      else if c = CHR 0x0A then [CHR 0x5C, CHR ''n'']
      else if c = CHR 0x0C then [CHR 0x5C, CHR ''f'']
      else if c = CHR 0x0D then [CHR 0x5C, CHR ''r'']
      else if c = CHR 0x22 then [CHR 0x5C, CHR 0x22]
      else if c = CHR 0x5C then [CHR 0x5C, CHR 0x5C]
      else if (of_char c :: nat) < 32
        then [CHR 0x5C, CHR ''u'', CHR ''0'', CHR ''0'',
              digit_char (of_char c div 16), digit_char (of_char c mod 16)]
      else [c])"

definition QuoteJSONString :: "string \<Rightarrow> string" where
  "QuoteJSONString s = CHR 0x22 # concat (map quote_char s) @ [CHR 0x22]"

fun SerializeJSONProperty :: "string \<Rightarrow> string \<Rightarrow> json \<Rightarrow> string" where
  "SerializeJSONProperty gap indent JNull = ''null''"
| "SerializeJSONProperty gap indent (JBool b) = (if b then ''true'' else ''false'')"
| "SerializeJSONProperty gap indent (JNum n) = show_int n"
| "SerializeJSONProperty gap indent (JStr s) = QuoteJSONString s"
| "SerializeJSONProperty gap indent (JArr xs) =
     (let stepback = indent; indent = indent @ gap;
          partial = map (SerializeJSONProperty gap indent) xs
      in if partial = [] then ''[]''
         else if gap = [] then ''['' @ join '','' partial @ '']''
         else ''['' @ CHR 0x0A # indent @ join ('','' @ CHR 0x0A # indent) partial
                @ CHR 0x0A # stepback @ '']'')"
| "SerializeJSONProperty gap indent (JObj ps) =
     (let stepback = indent; indent = indent @ gap;
          partial = map (\<lambda>p. QuoteJSONString (fst p) @ '':'' @ (if gap = [] then [] else '' '')
                              @ SerializeJSONProperty gap indent (snd p)) ps
      in if partial = [] then ''{}''
         else if gap = [] then ''{'' @ join '','' partial @ ''}''
         else ''{'' @ CHR 0x0A # indent @ join ('','' @ CHR 0x0A # indent) partial
                @ CHR 0x0A # stepback @ ''}'')"

definition JSON_stringify :: "json \<Rightarrow> nat \<Rightarrow> string" where
  \<comment> \<open>\<open>JSON.stringify(v, null, space)\<close>; \<open>JSON.stringify(v)\<close> is \<open>JSON_stringify v 0\<close>.
     The gap is \<open>space\<close> blanks, ten at most.\<close>
  "JSON_stringify v space = SerializeJSONProperty (replicate (min 10 space) CHR '' '') [] v"

subsection \<open>\<open>JSON.parse\<close>\<close>

text \<open>
  A recursive-descent reader of the JSON grammar: white space, the three literals, strings
  with their escapes, arrays and objects. Two kinds of text are outside the model and read
  as errors: a number literal with a fraction or an exponent, and a \<open>\u\<close> escape of a
  code unit above 255. The first argument of \<open>parse_value\<close> bounds the recursion;
  \<open>JSON_parse\<close> starts it above the length of the text.
\<close>

definition is_json_ws :: "char \<Rightarrow> bool" where
  "is_json_ws c \<longleftrightarrow> c = CHR 0x20 \<or> c = CHR 0x09 \<or> c = CHR 0x0A \<or> c = CHR 0x0D"

definition skip_ws :: "string \<Rightarrow> string" where
  "skip_ws s = dropWhile is_json_ws s"

definition is_digit :: "char \<Rightarrow> bool" where
  "is_digit c \<longleftrightarrow> 48 \<le> (of_char c :: nat) \<and> (of_char c :: nat) \<le> 57"

definition digit_val :: "char \<Rightarrow> nat" where
  "digit_val c = of_char c - 48"

definition hex_val :: "char \<Rightarrow> nat option" where
  "hex_val c =
     (let n = (of_char c :: nat)
      in if 48 \<le> n \<and> n \<le> 57 then Some (n - 48)
         else if 97 \<le> n \<and> n \<le> 102 then Some (n - 87)
         else if 65 \<le> n \<and> n \<le> 70 then Some (n - 55)
         else None)"

definition unescape :: "char \<Rightarrow> char option" where
  "unescape e =
     (if e = CHR 0x22 then Some (CHR 0x22)
      else if e = CHR 0x5C then Some (CHR 0x5C)
      else if e = CHR ''/'' then Some (CHR ''/'')
      else if e = CHR ''b'' then Some (CHR 0x08)
      else if e = CHR ''f'' then Some (CHR 0x0C)
      else if e = CHR ''n'' then Some (CHR 0x0A)
      else if e = CHR ''r'' then Some (CHR 0x0D)
      else if e = CHR ''t'' then Some (CHR 0x09)
      else None)"

definition hex4 :: "char \<Rightarrow> char \<Rightarrow> char \<Rightarrow> char \<Rightarrow> nat option" where
  "hex4 a b c d =
     (case (hex_val a, hex_val b, hex_val c, hex_val d) of
        (Some x, Some y, Some z, Some u) \<Rightarrow> Some (((x * 16 + y) * 16 + z) * 16 + u)
      | _ \<Rightarrow> None)"

fun parse_string_chars :: "string \<Rightarrow> (string \<times> string) option" where
  \<comment> \<open>after the opening quote: the characters up to the closing quote, and what follows it\<close>
  "parse_string_chars [] = None"
| "parse_string_chars (c # r) =
     (if c = CHR 0x22 then Some ([], r)
      else if c = CHR 0x5C then
        (case r of
           [] \<Rightarrow> None
         | e # r1 \<Rightarrow>
             if e = CHR ''u'' then
               (case r1 of
                  h1 # h2 # h3 # h4 # r2 \<Rightarrow>
                    (case hex4 h1 h2 h3 h4 of
                       None \<Rightarrow> None
                     | Some n \<Rightarrow>
                         if n < 256 then map_option (apfst ((#) (char_of n))) (parse_string_chars r2)
                         else None)
                | _ \<Rightarrow> None)
             else
               (case unescape e of
                  None \<Rightarrow> None
                | Some c' \<Rightarrow> map_option (apfst ((#) c')) (parse_string_chars r1)))
      else if (of_char c :: nat) < 32 then None
      else map_option (apfst ((#) c)) (parse_string_chars r))"

fun parse_digits :: "nat \<Rightarrow> string \<Rightarrow> nat \<times> string" where
  "parse_digits acc [] = (acc, [])"
| "parse_digits acc (c # r) =
     (if is_digit c then parse_digits (10 * acc + digit_val c) r else (acc, c # r))"

definition parse_unsigned :: "string \<Rightarrow> (nat \<times> string) option" where
  \<comment> \<open>\<open>0\<close> or a digit run that does not start with \<open>0\<close>. A fraction or an exponent would
     give a number that is no integer: such literals are outside this model.\<close>
  "parse_unsigned s =
     (case s of
        [] \<Rightarrow> None
      | c # r \<Rightarrow>
          if \<not> is_digit c then None
          else
            (let (n, r') = (if c = CHR ''0'' then (0, r) else parse_digits 0 s)
             in case r' of
                  [] \<Rightarrow> Some (n, r')
                | d # _ \<Rightarrow>
                    if d = CHR ''.'' \<or> d = CHR ''e'' \<or> d = CHR ''E'' then None
                    else Some (n, r')))"

definition parse_number :: "string \<Rightarrow> (json \<times> string) option" where
  "parse_number s =
     (case s of
        [] \<Rightarrow> None
      | c # r \<Rightarrow>
          if c = CHR ''-'' then map_option (apfst (\<lambda>n. JNum (- int n))) (parse_unsigned r)
          else map_option (apfst (\<lambda>n. JNum (int n))) (parse_unsigned s))"

definition CreateDataProperties :: "(string \<times> json) list \<Rightarrow> (string \<times> json) list" where
  \<comment> \<open>The members in the order read; a name read again replaces the value in place.
     (JavaScript enumerates names that are array indices first; the model keeps the order
     read.)\<close>
  "CreateDataProperties ms = foldl (\<lambda>ps m. AList.update (fst m) (snd m) ps) [] ms"

fun parse_value :: "nat \<Rightarrow> string \<Rightarrow> (json \<times> string) option"
  and parse_elements :: "nat \<Rightarrow> string \<Rightarrow> (json list \<times> string) option"
  and parse_members :: "nat \<Rightarrow> string \<Rightarrow> ((string \<times> json) list \<times> string) option"
where
  \<comment> \<open>\<open>parse_elements\<close> and \<open>parse_members\<close> start at the first entry of a non-empty array
     or object and end behind its closing bracket.\<close>
  "parse_value 0 s = None"
| "parse_value (Suc n) s =
     (case s of
        [] \<Rightarrow> None
      | c # r \<Rightarrow>
          if c = CHR ''['' then
            (case skip_ws r of
               [] \<Rightarrow> None
             | c1 # r1 \<Rightarrow>
                 if c1 = CHR '']'' then Some (JArr [], r1)
                 else map_option (apfst JArr) (parse_elements n (c1 # r1)))
          else if c = CHR ''{'' then
            (case skip_ws r of
               [] \<Rightarrow> None
             | c1 # r1 \<Rightarrow>
                 if c1 = CHR ''}'' then Some (JObj [], r1)
                 else map_option (apfst (\<lambda>ms. JObj (CreateDataProperties ms)))
                        (parse_members n (c1 # r1)))
          else if c = CHR 0x22 then map_option (apfst JStr) (parse_string_chars r)
          else if prefix ''true'' s then Some (JBool True, drop 4 s)
          else if prefix ''false'' s then Some (JBool False, drop 5 s)
          else if prefix ''null'' s then Some (JNull, drop 4 s)
          else parse_number s)"
| "parse_elements 0 s = None"
| "parse_elements (Suc n) s =
     (case parse_value (Suc n) s of
        None \<Rightarrow> None
      | Some (v, r) \<Rightarrow>
          (case skip_ws r of
             [] \<Rightarrow> None
           | c # r1 \<Rightarrow>
               if c = CHR '','' then map_option (apfst ((#) v)) (parse_elements n (skip_ws r1))
               else if c = CHR '']'' then Some ([v], r1)
               else None))"
| "parse_members 0 s = None"
| "parse_members (Suc n) s =
     (case s of
        [] \<Rightarrow> None
      | q # r \<Rightarrow>
          if q \<noteq> CHR 0x22 then None
          else
            (case parse_string_chars r of
               None \<Rightarrow> None
             | Some (k, r1) \<Rightarrow>
                 (case skip_ws r1 of
                    [] \<Rightarrow> None
                  | c # r2 \<Rightarrow>
                      if c \<noteq> CHR '':'' then None
                      else
                        (case parse_value (Suc n) (skip_ws r2) of
                           None \<Rightarrow> None
                         | Some (v, r3) \<Rightarrow>
                             (case skip_ws r3 of
                                [] \<Rightarrow> None
                              | c' # r4 \<Rightarrow>
                                  if c' = CHR '','' then
                                    map_option (apfst ((#) (k, v))) (parse_members n (skip_ws r4))
                                  else if c' = CHR ''}'' then Some ([(k, v)], r4)
                                  else None)))))"

definition JSON_parse :: "string \<Rightarrow> json option" where
  "JSON_parse s =
     (case parse_value (Suc (length s)) (skip_ws s) of
        None \<Rightarrow> None
      | Some (v, r) \<Rightarrow> if skip_ws r = [] then Some v else None)"

section \<open>Tools, backends and the outside world\<close>

record tool =
  name :: string
  description :: string
  input_schema :: json

datatype error =
    ValidationError                \<comment> \<open>\<open>Server script must be a .js or .py file\<close>\<close>
  | ConnectionError                \<comment> \<open>\<open>client.connect\<close> rejected\<close>
  | ProtocolError                  \<comment> \<open>\<open>client.listTools\<close> rejected\<close>
  | NoBackendAvailable             \<comment> \<open>\<open>No suitable MCP server found.\<close>\<close>
  | ModelCallFailed                \<comment> \<open>the language-model request rejected\<close>
  | SelectionParseError string     \<comment> \<open>no \<open>path=..., name=...\<close> in the reply; carries \<open>llmText\<close>\<close>
  | UnknownBackendSelected string  \<comment> \<open>no discovered server has the parsed path\<close>
  | UnknownToolSelected string     \<comment> \<open>the selected server has no tool of the parsed name\<close>
  | ArgumentSynthesisError string  \<comment> \<open>no \<open>name=..., args={...}\<close> in the reply; carries \<open>llmText\<close>\<close>
  | JSONSyntaxError                \<comment> \<open>the \<open>SyntaxError\<close> that \<open>JSON.parse\<close> throws\<close>
  | ToolInvocationError            \<comment> \<open>\<open>client.callTool\<close> rejected\<close>
  | TypeError                      \<comment> \<open>a property read on \<open>null\<close> or \<open>undefined\<close>\<close>

text \<open>What a backend does when a client is started on it.\<close>

datatype backend_behaviour =
    SpawnFails                     \<comment> \<open>\<open>client.connect(transport)\<close> rejects; nothing stays open\<close>
  | ListToolsFails                 \<comment> \<open>the connection is established, \<open>listTools\<close> rejects\<close>
  | Advertises "tool list"         \<comment> \<open>the connection is established and these tools are listed\<close>

text \<open>
  The prompts of the source are fixed instruction texts with values spliced in; a prompt is
  represented by the template it comes from and the spliced values.
\<close>

datatype prompt =
    SelectionPrompt string string  \<comment> \<open>query, \<open>toolListText\<close>\<close>
  | ArgumentPrompt string string   \<comment> \<open>query, \<open>toolListText\<close>\<close>
  | AnswerPrompt string string     \<comment> \<open>query, the normalized tool output\<close>

datatype content_block =
    TextBlock string               \<comment> \<open>\<open>{type: "text", text}\<close>\<close>
  | ToolUseBlock string json       \<comment> \<open>\<open>{type: "tool_use", name, input}\<close>\<close>
  | OtherBlock                     \<comment> \<open>any other block type\<close>

type_synonym handle = nat

record env =
  platform :: string                                   \<comment> \<open>\<open>process.platform\<close>\<close>
  execPath :: string                                   \<comment> \<open>\<open>process.execPath\<close>\<close>
  backend :: "string \<Rightarrow> string \<Rightarrow> backend_behaviour"     \<comment> \<open>by launch command and script path\<close>
  toolResult :: "handle \<Rightarrow> string \<Rightarrow> json \<Rightarrow> json option"
    \<comment> \<open>\<open>(await client.callTool({name, arguments})).content\<close>; \<open>None\<close> when the call rejects\<close>
  generateContent :: "prompt \<Rightarrow> string option"
    \<comment> \<open>the text of the model's reply; \<open>None\<close> when the request rejects\<close>
  messagesCreate :: "json list \<Rightarrow> tool list \<Rightarrow> content_block list option"
    \<comment> \<open>\<open>anthropic.messages.create\<close> on the contents of the user messages and the declared
       tools (none in the follow-up request); \<open>None\<close> when the request rejects\<close>
  jsonParse :: "string \<Rightarrow> json option"
    \<comment> \<open>the runtime's \<open>JSON.parse\<close> on any text; \<open>None\<close> when it throws \<open>SyntaxError\<close>\<close>

record world =
  next_handle :: handle
  open_conns :: "handle list"             \<comment> \<open>the connections established and not closed since\<close>
  launched :: "(string \<times> string) list"     \<comment> \<open>command and script of every transport started\<close>
  tool_calls :: "(handle \<times> string \<times> json) list"  \<comment> \<open>every \<open>callTool\<close> request sent\<close>

definition world0 :: world where
  "world0 = \<lparr>next_handle = 0, open_conns = [], launched = [], tool_calls = []\<rparr>"

definition close :: "handle \<Rightarrow> world \<Rightarrow> world" where
  \<comment> \<open>\<open>client.close()\<close> and \<open>transport.close()\<close>: both end the one connection; closing twice is harmless.\<close>
  "close h w = w\<lparr>open_conns := removeAll h (open_conns w)\<rparr>"

section \<open>Starting a backend\<close>

definition launch_command :: "env \<Rightarrow> string \<Rightarrow> string" where
  \<comment> \<open>\<open>isPy ? (process.platform === "win32" ? "python" : "python3") : process.execPath\<close>\<close>
  "launch_command e serverScriptPath =
     (if endsWith serverScriptPath ''.py''
      then (if platform e = ''win32'' then ''python'' else ''python3'')
      else execPath e)"

definition start_client :: "env \<Rightarrow> string \<Rightarrow> string \<Rightarrow> world \<Rightarrow> (error + tool list \<times> handle) \<times> world" where
  \<comment> \<open>\<open>new StdioClientTransport({command, args: [path]})\<close>, \<open>client.connect\<close>, \<open>client.listTools\<close>.
     When \<open>listTools\<close> rejects, neither \<open>connectToServer\<close> nor \<open>getServerTools\<close> closes
     the client it has connected.\<close>
  "start_client e command serverScriptPath w =
     (let w1 = w\<lparr>launched := launched w @ [(command, serverScriptPath)]\<rparr>
      in case backend e command serverScriptPath of
           SpawnFails \<Rightarrow> (Inl ConnectionError, w1)
         | ListToolsFails \<Rightarrow>
             (Inl ProtocolError,
              w1\<lparr>next_handle := Suc (next_handle w1),
                 open_conns := open_conns w1 @ [next_handle w1]\<rparr>)
         | Advertises ts \<Rightarrow>
             (Inr (ts, next_handle w1),
              w1\<lparr>next_handle := Suc (next_handle w1),
                 open_conns := open_conns w1 @ [next_handle w1]\<rparr>))"

definition connectToServer :: "env \<Rightarrow> string \<Rightarrow> world \<Rightarrow> (error + tool list \<times> handle) \<times> world" where
  \<comment> \<open>The single-backend client: the extension is checked before anything is started.\<close>
  "connectToServer e serverScriptPath w =
     (if \<not> endsWith serverScriptPath ''.js'' \<and> \<not> endsWith serverScriptPath ''.py''
      then (Inl ValidationError, w)
      else start_client e (launch_command e serverScriptPath) serverScriptPath w)"

definition getServerTools :: "env \<Rightarrow> string \<Rightarrow> world \<Rightarrow> (error + tool list \<times> handle) \<times> world" where
  \<comment> \<open>The multi-backend clients: \<open>isJs\<close> is computed and never read.\<close>
  "getServerTools e serverScriptPath w =
     start_client e (launch_command e serverScriptPath) serverScriptPath w"

section \<open>Regular expressions on the model's reply\<close>

text \<open>
  \<open>String.prototype.match\<close> with a pattern that has no flags returns the leftmost match. A
  pattern is given here by the function that tries it at one position.
\<close>

fun leftmost :: "(string \<Rightarrow> 'a option) \<Rightarrow> string \<Rightarrow> 'a option" where
  "leftmost at [] = at []"
| "leftmost at (c # r) = (case at (c # r) of Some m \<Rightarrow> Some m | None \<Rightarrow> leftmost at r)"

fun lazy_group :: "(string \<Rightarrow> 'a option) \<Rightarrow> string \<Rightarrow> string \<Rightarrow> (string \<times> 'a) option" where
  \<comment> \<open>\<open>(.*?)\<close> before the rest of the pattern: the shortest run of characters other than
     line terminators after which the rest matches; \<open>acc\<close> is the run taken so far.\<close>
  "lazy_group rest acc [] = (case rest [] of Some g \<Rightarrow> Some (acc, g) | None \<Rightarrow> None)"
| "lazy_group rest acc (c # r) =
     (case rest (c # r) of
        Some g \<Rightarrow> Some (acc, g)
      | None \<Rightarrow> if is_line_terminator c then None else lazy_group rest (acc @ [c]) r)"

definition after_comma :: "string \<Rightarrow> (string \<Rightarrow> 'a option) \<Rightarrow> string \<Rightarrow> 'a option" where
  \<comment> \<open>\<open>,\s*key\<close> and then the rest. The greedy \<open>\s*\<close> has nothing to give back: no key
     starts with a white space.\<close>
  "after_comma key rest s =
     (case s of
        [] \<Rightarrow> None
      | c # r \<Rightarrow>
          if c \<noteq> CHR '','' then None
          else (let r1 = dropWhile is_white_space r
                in if prefix key r1 then rest (drop (length key) r1) else None))"

definition greedy_line :: "string \<Rightarrow> string option" where
  \<comment> \<open>\<open>(.*)\<close> at the end of the pattern: everything up to the line terminator.\<close>
  "greedy_line s = Some (takeWhile (\<lambda>c. \<not> is_line_terminator c) s)"

definition braces_group :: "string \<Rightarrow> string option" where
  \<comment> \<open>\<open>(\{.*\})\<close>: from an opening brace to the last closing brace of the line.\<close>
  "braces_group s =
     (case s of
        [] \<Rightarrow> None
      | c # r \<Rightarrow>
          if c \<noteq> CHR ''{'' then None
          else (let line = takeWhile (\<lambda>c. \<not> is_line_terminator c) r;
                    body = rev (dropWhile (\<lambda>c. c \<noteq> CHR ''}'') (rev line))
                in if body = [] then None else Some (c # body)))"

definition match_selection :: "string \<Rightarrow> (string \<times> string) option" where
  \<comment> \<open>\<open>llmText.match(/path=(.*?),\s*name=(.*)/)\<close>: the two groups\<close>
  "match_selection llmText =
     leftmost (\<lambda>s. if prefix ''path='' s
                    then lazy_group (after_comma ''name='' greedy_line) [] (drop 5 s)
                    else None) llmText"

definition match_tool_call :: "string \<Rightarrow> (string \<times> string) option" where
  \<comment> \<open>\<open>llmText.match(/name=(.*?),\s*args=(\{.*\})/)\<close>: the two groups\<close>
  "match_tool_call llmText =
     leftmost (\<lambda>s. if prefix ''name='' s
                    then lazy_group (after_comma ''args='' braces_group) [] (drop 5 s)
                    else None) llmText"

section \<open>Selecting a server and a tool\<close>

record server_info =
  path :: string
  tools :: "tool list"
  client :: handle    \<comment> \<open>\<open>client\<close> and \<open>transport\<close>: the two ends of one connection\<close>

fun discover :: "env \<Rightarrow> string list \<Rightarrow> server_info list \<Rightarrow> world \<Rightarrow> server_info list \<times> world" where
  \<comment> \<open>\<open>for (const path of SERVER_CANDIDATES) { try { ...push... } catch (e) { } }\<close>\<close>
  "discover e [] allServerInfos w = (allServerInfos, w)"
| "discover e (p # ps) allServerInfos w =
     (case getServerTools e p w of
        (Inl err, w') \<Rightarrow> discover e ps allServerInfos w'
      | (Inr (ts, h), w') \<Rightarrow>
          discover e ps (allServerInfos @ [\<lparr>path = p, tools = ts, client = h\<rparr>]) w')"

definition allTools :: "server_info list \<Rightarrow> (string \<times> tool) list" where
  \<comment> \<open>\<open>allServerInfos.flatMap(info => info.tools.map(tool => ({path: info.path, ...tool})))\<close>;
     an entry \<open>{path, name, description, input_schema}\<close> is the pair of the path and the tool.\<close>
  "allTools allServerInfos =
     flatMap (\<lambda>info. map (\<lambda>tool. (path info, tool)) (tools info)) allServerInfos"

definition selection_line :: "nat \<Rightarrow> string \<times> tool \<Rightarrow> string" where
  "selection_line idx entry =
     ''Tool'' @ show_nat (idx + 1) @ '': path='' @ [CHR 0x27] @ fst entry @ [CHR 0x27]
     @ '', name='' @ [CHR 0x27] @ name (snd entry) @ [CHR 0x27]
     @ '', description='' @ [CHR 0x27] @ description (snd entry) @ [CHR 0x27]"

definition selection_toolListText :: "(string \<times> tool) list \<Rightarrow> string" where
  "selection_toolListText entries =
     join [CHR 0x0A] (map (\<lambda>(idx, entry). selection_line idx entry) (enumerate 0 entries))"

definition validate_selection :: "server_info list \<Rightarrow> string \<Rightarrow> error + server_info \<times> tool" where
  \<comment> \<open>From the \<open>match\<close> to the last \<open>throw\<close> of \<open>selectServerScript\<close>.\<close>
  "validate_selection allServerInfos llmText =
     (case match_selection llmText of
        None \<Rightarrow> Inl (SelectionParseError llmText)
      | Some (g1, g2) \<Rightarrow>
          (let selectedPath = trim g1; selectedName = trim g2
           in case find (\<lambda>info. path info = selectedPath) allServerInfos of
                None \<Rightarrow> Inl (UnknownBackendSelected selectedPath)
              | Some selectedServer \<Rightarrow>
                  (case find (\<lambda>t. name t = selectedName) (tools selectedServer) of
                     None \<Rightarrow> Inl (UnknownToolSelected selectedName)
                   | Some selectedTool \<Rightarrow> Inr (selectedServer, selectedTool))))"

fun close_unselected :: "string \<Rightarrow> server_info list \<Rightarrow> world \<Rightarrow> world" where
  \<comment> \<open>\<open>for (const info of allServerInfos) if (info.path !== selectedPath) { close; close }\<close>\<close>
  "close_unselected selectedPath [] w = w"
| "close_unselected selectedPath (info # infos) w =
     close_unselected selectedPath infos
       (if path info \<noteq> selectedPath then close (client info) (close (client info) w) else w)"

definition selectServerScript ::
  "env \<Rightarrow> string list \<Rightarrow> string \<Rightarrow> world \<Rightarrow> (error + server_info \<times> tool) \<times> world" where
  "selectServerScript e SERVER_CANDIDATES query w =
     (case discover e SERVER_CANDIDATES [] w of
        (allServerInfos, w1) \<Rightarrow>
          if allServerInfos = [] then (Inl NoBackendAvailable, w1)
          else
            (case generateContent e
                    (SelectionPrompt query (selection_toolListText (allTools allServerInfos))) of
               None \<Rightarrow> (Inl ModelCallFailed, w1)
             | Some reply \<Rightarrow>
                 (case validate_selection allServerInfos (trim reply) of
                    Inl err \<Rightarrow> (Inl err, w1)
                  | Inr (selectedServer, selectedTool) \<Rightarrow>
                      (Inr (selectedServer, selectedTool),
                       close_unselected (path selectedServer) allServerInfos w1))))"

subsection \<open>The selector that scores by containment\<close>

definition score :: "string \<Rightarrow> tool list \<Rightarrow> int" where
  \<comment> \<open>\<open>tools.reduce((acc, tool) => acc + nameMatch + descMatch, 0)\<close>; the empty string is falsy.\<close>
  "score query ts =
     foldl (\<lambda>acc tool.
              acc + (if name tool \<noteq> [] \<and> includes_str query (name tool) then 2 else 0)
                  + (if description tool \<noteq> [] \<and> includes_str (description tool) query then 1 else 0))
       0 ts"

fun best_server ::
  "env \<Rightarrow> string \<Rightarrow> string list \<Rightarrow> int \<Rightarrow> server_info option \<Rightarrow> world \<Rightarrow> server_info option \<times> world" where
  "best_server e query [] bestScore best w = (best, w)"
| "best_server e query (p # ps) bestScore best w =
     (case getServerTools e p w of
        (Inl err, w') \<Rightarrow> best_server e query ps bestScore best w'
      | (Inr (ts, h), w') \<Rightarrow>
          if score query ts > bestScore
          then best_server e query ps (score query ts) (Some \<lparr>path = p, tools = ts, client = h\<rparr>)
                 (case best of None \<Rightarrow> w' | Some b \<Rightarrow> close (client b) w')
          else best_server e query ps bestScore best (close h w'))"

definition selectServerScript_by_score ::
  "env \<Rightarrow> string list \<Rightarrow> string \<Rightarrow> world \<Rightarrow> (error + server_info) \<times> world" where
  "selectServerScript_by_score e SERVER_CANDIDATES query w =
     (case best_server e query SERVER_CANDIDATES (- 1) None w of
        (None, w') \<Rightarrow> (Inl NoBackendAvailable, w')
      | (Some best, w') \<Rightarrow> (Inr best, w'))"

section \<open>Invoking the tool\<close>

definition callTool :: "env \<Rightarrow> handle \<Rightarrow> string \<Rightarrow> json \<Rightarrow> world \<Rightarrow> (error + json) \<times> world" where
  \<comment> \<open>\<open>(await this.mcp.callTool({name, arguments})).content\<close>\<close>
  "callTool e h toolName toolArgs w =
     (let w' = w\<lparr>tool_calls := tool_calls w @ [(h, toolName, toolArgs)]\<rparr>
      in case toolResult e h toolName toolArgs of
           None \<Rightarrow> (Inl ToolInvocationError, w')
         | Some content \<Rightarrow> (Inr content, w'))"

subsection \<open>Prompt-derived calling\<close>

definition argument_line :: "nat \<Rightarrow> tool \<Rightarrow> string" where
  "argument_line idx t =
     ''Tool'' @ show_nat (idx + 1) @ '': name='' @ [CHR 0x27] @ name t @ [CHR 0x27]
     @ '', description='' @ [CHR 0x27] @ description t @ [CHR 0x27]
     @ '', input_schema='' @ JSON_stringify (input_schema t) 0"

definition argument_toolListText :: "tool list \<Rightarrow> string" where
  "argument_toolListText ts =
     join [CHR 0x0A] (map (\<lambda>(idx, t). argument_line idx t) (enumerate 0 ts))"

definition get_property :: "json \<Rightarrow> string \<Rightarrow> (json option) option" where
  \<comment> \<open>\<open>item[key]\<close>: \<open>None\<close> is the \<open>TypeError\<close> of reading a property of \<open>null\<close>,
     \<open>Some None\<close> is \<open>undefined\<close>.\<close>
  "get_property item key =
     (case item of
        JNull \<Rightarrow> None
      | JObj ps \<Rightarrow> Some (map_of ps key)
      | _ \<Rightarrow> Some None)"

definition is_text_item :: "json \<Rightarrow> bool option" where
  \<comment> \<open>\<open>item.type === "text" && typeof item.text === "string"\<close>; \<open>None\<close> when it throws.\<close>
  "is_text_item item =
     (case get_property item ''type'' of
        None \<Rightarrow> None
      | Some ty \<Rightarrow>
          if ty = Some (JStr ''text'')
          then (case get_property item ''text'' of
                  None \<Rightarrow> None
                | Some (Some (JStr s)) \<Rightarrow> Some True
                | Some _ \<Rightarrow> Some False)
          else Some False)"

fun filter_text_items :: "json list \<Rightarrow> json list option" where
  \<comment> \<open>\<open>content.filter(...)\<close>; \<open>None\<close> as soon as the callback throws.\<close>
  "filter_text_items [] = Some []"
| "filter_text_items (item # items) =
     (case is_text_item item of
        None \<Rightarrow> None
      | Some keep \<Rightarrow>
          (case filter_text_items items of
             None \<Rightarrow> None
           | Some kept \<Rightarrow> Some (if keep then item # kept else kept)))"

definition item_text :: "json \<Rightarrow> string" where
  \<comment> \<open>\<open>item.text\<close> of an item the filter kept\<close>
  "item_text item =
     (case get_property item ''text'' of Some (Some (JStr s)) \<Rightarrow> s | _ \<Rightarrow> [])"

definition normalize_content :: "json \<Rightarrow> error + json" where
  \<comment> \<open>\<open>if (Array.isArray(content)) { ... texts || JSON.stringify(content, null, 2) }
     else if (typeof content === "object") { JSON.stringify(content, null, 2) }\<close>\<close>
  "normalize_content content =
     (case content of
        JArr items \<Rightarrow>
          (case filter_text_items items of
             None \<Rightarrow> Inl TypeError
           | Some kept \<Rightarrow>
               (let texts = join [CHR 0x0A, CHR 0x0A] (map item_text kept)
                in Inr (JStr (if texts \<noteq> [] then texts else JSON_stringify content 2))))
      | JObj ps \<Rightarrow> Inr (JStr (JSON_stringify content 2))
      | JNull \<Rightarrow> Inr (JStr (JSON_stringify content 2))
      | _ \<Rightarrow> Inr content)"

definition ToString :: "json \<Rightarrow> string" where
  \<comment> \<open>\<open>`${content}`\<close> on what \<open>normalize_content\<close> leaves: a string, a number or a
     boolean (the last case is never reached from there)\<close>
  "ToString v =
     (case v of
        JStr s \<Rightarrow> s
      | JNum n \<Rightarrow> show_int n
      | JBool b \<Rightarrow> (if b then ''true'' else ''false'')
      | _ \<Rightarrow> JSON_stringify v 0)"

definition processQuery ::
  "env \<Rightarrow> handle \<Rightarrow> tool list \<Rightarrow> string \<Rightarrow> world \<Rightarrow> (error + string) \<times> world" where
  \<comment> \<open>The result is the trimmed answer; the source returns it behind a fixed label line.\<close>
  "processQuery e mcp ts query w =
     (case generateContent e (ArgumentPrompt query (argument_toolListText ts)) of
        None \<Rightarrow> (Inl ModelCallFailed, w)
      | Some reply \<Rightarrow>
          (let llmText = trim reply
           in case match_tool_call llmText of
                None \<Rightarrow> (Inl (ArgumentSynthesisError llmText), w)
              | Some (g1, g2) \<Rightarrow>
                  (let toolName = trim g1
                   in case jsonParse e g2 of
                        None \<Rightarrow> (Inl JSONSyntaxError, w)
                      | Some toolArgs \<Rightarrow>
                          (case callTool e mcp toolName toolArgs w of
                             (Inl err, w') \<Rightarrow> (Inl err, w')
                           | (Inr content, w') \<Rightarrow>
                               (case normalize_content content of
                                  Inl err \<Rightarrow> (Inl err, w')
                                | Inr content' \<Rightarrow>
                                    (case generateContent e (AnswerPrompt query (ToString content')) of
                                       None \<Rightarrow> (Inl ModelCallFailed, w')
                                     | Some answer \<Rightarrow> (Inr (trim answer), w')))))))"

subsection \<open>Native tool calling\<close>

fun process_blocks ::
  "env \<Rightarrow> handle \<Rightarrow> content_block list \<Rightarrow> string list \<Rightarrow> json list \<Rightarrow> world
     \<Rightarrow> (error + string list) \<times> world" where
  \<comment> \<open>\<open>for (const content of response.content) { ... }\<close> with \<open>finalText\<close> and \<open>messages\<close>\<close>
  "process_blocks e mcp [] finalText messages w = (Inr finalText, w)"
| "process_blocks e mcp (TextBlock t # blocks) finalText messages w =
     process_blocks e mcp blocks (finalText @ [t]) messages w"
| "process_blocks e mcp (ToolUseBlock toolName toolArgs # blocks) finalText messages w =
     (case callTool e mcp toolName toolArgs w of
        (Inl err, w') \<Rightarrow> (Inl err, w')
      | (Inr content, w') \<Rightarrow>
          (let finalText1 = finalText @
                 [''[Calling tool '' @ toolName @ '' with args '' @ JSON_stringify toolArgs 0 @ '']''];
               messages1 = messages @ [content]
           in case messagesCreate e messages1 [] of
                None \<Rightarrow> (Inl ModelCallFailed, w')
              | Some [] \<Rightarrow> (Inl TypeError, w')
              | Some (first # _) \<Rightarrow>
                  process_blocks e mcp blocks
                    (finalText1 @ [case first of TextBlock t \<Rightarrow> t | _ \<Rightarrow> []]) messages1 w'))"
| "process_blocks e mcp (OtherBlock # blocks) finalText messages w =
     process_blocks e mcp blocks finalText messages w"

definition processQuery_native ::
  "env \<Rightarrow> handle \<Rightarrow> tool list \<Rightarrow> string \<Rightarrow> world \<Rightarrow> (error + string) \<times> world" where
  "processQuery_native e mcp ts query w =
     (case messagesCreate e [JStr query] ts of
        None \<Rightarrow> (Inl ModelCallFailed, w)
      | Some content \<Rightarrow>
          (case process_blocks e mcp content [] [JStr query] w of
             (Inl err, w') \<Rightarrow> (Inl err, w')
           | (Inr finalText, w') \<Rightarrow> (Inr (join [CHR 0x0A] finalText), w')))"

section \<open>One cycle of the session\<close>

datatype cycle_outcome =
    SelectionFailed error  \<comment> \<open>caught and printed; \<open>continue\<close>\<close>
  | Declined               \<comment> \<open>the confirmation was not \<open>ok\<close>; \<open>continue\<close>\<close>
  | Answered string        \<comment> \<open>the answer was printed; the loop goes on\<close>
  | Uncaught error         \<comment> \<open>\<open>processQuery\<close> rejected; after \<open>finally\<close> the rejection leaves \<open>main\<close>\<close>

definition cleanup :: "handle \<Rightarrow> world \<Rightarrow> world" where
  \<comment> \<open>\<open>await this.mcp.close(); if (this.transport) await this.transport.close?.()\<close>\<close>
  "cleanup mcp w = close mcp (close mcp w)"

definition main_cycle ::
  "(env \<Rightarrow> handle \<Rightarrow> tool list \<Rightarrow> string \<Rightarrow> world \<Rightarrow> (error + string) \<times> world)
     \<Rightarrow> env \<Rightarrow> string list \<Rightarrow> string \<Rightarrow> string \<Rightarrow> world \<Rightarrow> cycle_outcome \<times> world" where
  \<comment> \<open>The body of \<open>while (true)\<close> in \<open>main\<close>, the same in both files but for the
     \<open>processQuery\<close> of the client class; \<open>confirm\<close> is the line typed at the prompt.\<close>
  "main_cycle process e SERVER_CANDIDATES query confirm w =
     (case selectServerScript e SERVER_CANDIDATES query w of
        (Inl err, w1) \<Rightarrow> (SelectionFailed err, w1)
      | (Inr (serverInfo, selectedTool), w1) \<Rightarrow>
          if toLowerCase (trim confirm) \<noteq> ''ok'' then (Declined, w1)
          else
            (case process e (client serverInfo) [selectedTool] query w1 of
               (Inl err, w2) \<Rightarrow> (Uncaught err, cleanup (client serverInfo) w2)
             | (Inr answer, w2) \<Rightarrow> (Answered answer, cleanup (client serverInfo) w2)))"

section \<open>The registry the spec describes\<close>

definition advertised :: "env \<Rightarrow> string \<Rightarrow> tool list option" where
  \<comment> \<open>The tools of a reachable backend: one that connects and lists its tools.\<close>
  "advertised e p =
     (case backend e (launch_command e p) p of Advertises ts \<Rightarrow> Some ts | _ \<Rightarrow> None)"

definition reachable :: "env \<Rightarrow> string list \<Rightarrow> (string \<times> tool list) list" where
  \<comment> \<open>The reachable candidates, in the order of the candidate list, each with its tools.\<close>
  "reachable e cands =
     concat (map (\<lambda>p. case advertised e p of None \<Rightarrow> [] | Some ts \<Rightarrow> [(p, ts)]) cands)"

definition aggregate_spec :: "(string \<times> tool list) list \<Rightarrow> (string \<times> tool) list" where
  \<comment> \<open>In the spec's words: the flat ordered sequence of (backend id, tool), backend order
     first, per-backend tool order second.\<close>
  "aggregate_spec descriptors = [(backend_id, t). (backend_id, ts) \<leftarrow> descriptors, t \<leftarrow> ts]"

section \<open>Sample environments\<close>

definition get_weather :: tool where
  "get_weather = \<lparr>name = ''get_weather'', description = ''returns current weather'',
                   input_schema = JObj [(''type'', JStr ''object'')]\<rparr>"

definition env_weather :: "string \<Rightarrow> string \<Rightarrow> env" where
  \<comment> \<open>One reachable backend with one tool; the two arguments are the model's replies to the
     selection prompt and to the argument prompt.\<close>
  "env_weather selection arguments =
     \<lparr>platform = ''linux'', execPath = ''node'',
      backend = (\<lambda>command p. if p = ''/srv/weather.js'' then Advertises [get_weather]
                              else if p = ''/srv/stuck.js'' then ListToolsFails
                              else SpawnFails),
      toolResult = (\<lambda>h n a. Some (JArr [JObj [(''type'', JStr ''text''), (''text'', JStr ''Sunny'')]])),
      generateContent = (\<lambda>p. case p of SelectionPrompt q t \<Rightarrow> Some selection
                                       | ArgumentPrompt q t \<Rightarrow> Some arguments
                                       | AnswerPrompt q t \<Rightarrow> Some t),
      messagesCreate = (\<lambda>messages ts. Some [TextBlock ''It is sunny.'']),
      jsonParse = JSON_parse\<rparr>"

section \<open>Notions for the round trip through \<open>JSON.stringify\<close> and \<open>JSON.parse\<close>\<close>

definition number_stop :: "string \<Rightarrow> bool" where
  \<comment> \<open>What follows cannot be taken for more of a number literal.\<close>
  "number_stop rest \<longleftrightarrow>
     (case rest of [] \<Rightarrow> True
      | d # _ \<Rightarrow> \<not> is_digit d \<and> d \<noteq> CHR ''.'' \<and> d \<noteq> CHR ''e'' \<and> d \<noteq> CHR ''E'')"

fun json_wf :: "json \<Rightarrow> bool" where
  \<comment> \<open>The values this model is exact on: every number a safe integer (printed by
     JavaScript digit for digit), every object with distinct property names.\<close>
  "json_wf (JNum n) \<longleftrightarrow> - 9007199254740991 \<le> n \<and> n \<le> 9007199254740991"
| "json_wf (JArr xs) \<longleftrightarrow> (\<forall>x \<in> set xs. json_wf x)"
| "json_wf (JObj ps) \<longleftrightarrow> distinct (map fst ps) \<and> (\<forall>p \<in> set ps. json_wf (snd p))"
| "json_wf _ \<longleftrightarrow> True"

definition nl_indent :: "string \<Rightarrow> string \<Rightarrow> string" where
  \<comment> \<open>The line break and indentation \<open>SerializeJSONProperty\<close> puts around the entries
     of a non-empty array or object.\<close>
  "nl_indent gap indent = (if gap = [] then [] else CHR 0x0A # indent)"

definition colon_space :: "string \<Rightarrow> string" where
  \<comment> \<open>What follows the colon of a property.\<close>
  "colon_space gap = (if gap = [] then [] else '' '')"

definition starts_value :: "string \<Rightarrow> bool" where
  \<comment> \<open>The text starts with a character that is no white space and closes nothing.\<close>
  "starts_value s \<longleftrightarrow>
     (case s of [] \<Rightarrow> False | c # _ \<Rightarrow> \<not> is_json_ws c \<and> c \<noteq> CHR '']'' \<and> c \<noteq> CHR ''}'')"

section \<open>Text items\<close>

definition text_typed :: "json \<Rightarrow> bool" where
  \<comment> \<open>An item whose type marks it as text content: an object with \<open>type\<close> \<open>"text"\<close>
     and a string under \<open>text\<close>.\<close>
  "text_typed item =
     (case item of
        JObj ps \<Rightarrow> map_of ps ''type'' = Some (JStr ''text'')
                  \<and> (case map_of ps ''text'' of Some (JStr s) \<Rightarrow> True | _ \<Rightarrow> False)
      | _ \<Rightarrow> False)"

definition text_item :: "string \<Rightarrow> json" where
  \<comment> \<open>\<open>{type: "text", text: s}\<close>\<close>
  "text_item s = JObj [(''type'', JStr ''text''), (''text'', JStr s)]"

section \<open>What the two patterns accept, said on the text\<close>

text \<open>
  The matcher above follows the way a backtracking engine runs a pattern. The predicates of
  this section say on the text alone where the patterns \<open>/path=(.*?),\s*name=(.*)/\<close> and
  \<open>/name=(.*?),\s*args=(\{.*\})/\<close> match and what their groups hold; the properties show
  that the matcher computes exactly that.
\<close>

definition key_pair_at :: "string \<Rightarrow> string \<Rightarrow> string \<Rightarrow> string \<Rightarrow> string \<Rightarrow> string \<Rightarrow> bool" where
  \<comment> \<open>An occurrence of \<open>k1(.*?),\s*k2\<close> in \<open>t\<close>: after \<open>pre\<close> comes the key \<open>k1\<close>, then
     \<open>p\<close> on one line, a comma, white space (line breaks included), the key \<open>k2\<close>; \<open>r\<close> is
     the text after \<open>k2\<close>.\<close>
  "key_pair_at k1 k2 t pre p r \<longleftrightarrow>
     (\<exists>ws. t = pre @ k1 @ p @ CHR '','' # ws @ k2 @ r
        \<and> (\<forall>c \<in> set p. \<not> is_line_terminator c) \<and> (\<forall>c \<in> set ws. is_white_space c))"

definition first_key_pair :: "string \<Rightarrow> string \<Rightarrow> (string \<Rightarrow> bool) \<Rightarrow> string \<Rightarrow> string \<Rightarrow> string \<Rightarrow> bool" where
  \<comment> \<open>The occurrence that \<open>match\<close> reports, among those whose end \<open>r\<close> the rest of the
     pattern accepts (\<open>ok\<close>): the one that starts first and, of those that start there, the
     one with the shortest first group.\<close>
  "first_key_pair k1 k2 ok t p r \<longleftrightarrow>
     (\<exists>pre. key_pair_at k1 k2 t pre p r \<and> ok r
        \<and> (\<forall>pre' p' r'. key_pair_at k1 k2 t pre' p' r' \<and> ok r' \<longrightarrow>
              length pre < length pre' \<or> (length pre = length pre' \<and> length p \<le> length p')))"

definition rest_of_line :: "string \<Rightarrow> string \<Rightarrow> bool" where
  \<comment> \<open>\<open>g\<close> is \<open>r\<close> up to its first line terminator, or all of \<open>r\<close> when it has none\<close>
  "rest_of_line r g \<longleftrightarrow>
     (\<exists>r'. r = g @ r' \<and> (\<forall>c \<in> set g. \<not> is_line_terminator c)
        \<and> (r' = [] \<or> is_line_terminator (hd r')))"

definition selection_parse :: "string \<Rightarrow> string \<Rightarrow> string \<Rightarrow> bool" where
  \<comment> \<open>The groups of \<open>/path=(.*?),\s*name=(.*)/\<close> on \<open>t\<close>: the first group of the first
     occurrence, and the rest of the line after \<open>name=\<close>.\<close>
  "selection_parse t g1 g2 \<longleftrightarrow>
     (\<exists>r. first_key_pair ''path='' ''name='' (\<lambda>r. True) t g1 r \<and> rest_of_line r g2)"

definition has_braces :: "string \<Rightarrow> bool" where
  \<comment> \<open>\<open>r\<close> starts with an opening brace that has a closing brace after it on its line\<close>
  "has_braces r \<longleftrightarrow>
     (\<exists>body r'. r = CHR ''{'' # body @ CHR ''}'' # r' \<and> (\<forall>c \<in> set body. \<not> is_line_terminator c))"

definition in_braces :: "string \<Rightarrow> string \<Rightarrow> bool" where
  \<comment> \<open>\<open>x\<close> is \<open>r\<close> from its opening brace to the last closing brace of that line: \<open>tl\<close>, the
     rest of the line, has no closing brace.\<close>
  "in_braces r x \<longleftrightarrow>
     (\<exists>body tl r'. r = CHR ''{'' # body @ CHR ''}'' # tl @ r' \<and> x = CHR ''{'' # body @ ''}''
        \<and> (\<forall>c \<in> set body. \<not> is_line_terminator c)
        \<and> (\<forall>c \<in> set tl. \<not> is_line_terminator c \<and> c \<noteq> CHR ''}'')
        \<and> (r' = [] \<or> is_line_terminator (hd r')))"

definition tool_call_parse :: "string \<Rightarrow> string \<Rightarrow> string \<Rightarrow> bool" where
  \<comment> \<open>The groups of \<open>/name=(.*?),\s*args=(\{.*\})/\<close> on \<open>t\<close>: the first group of the first
     occurrence that has braces after \<open>args=\<close>, and the text in these braces.\<close>
  "tool_call_parse t g1 g2 \<longleftrightarrow>
     (\<exists>r. first_key_pair ''name='' ''args='' has_braces t g1 r \<and> in_braces r g2)"

section \<open>Properties: starting a backend\<close>

text \<open>
  Claim C8. The launch interpreter is chosen from the locator's extension, and a locator
  that ends in neither \<open>.js\<close> nor \<open>.py\<close> is to fail validation instead of being started.
  The single-backend client does so. \<open>getServerTools\<close> does not: on \<open>/srv/tool.rb\<close> it
  raises no validation error and starts the script with the Node executable.
\<close>

theorem getServerTools_starts_unrecognized_extension:
  "connectToServer e ''/srv/tool.rb'' world0 = (Inl ValidationError, world0)
   \<and> fst (getServerTools e ''/srv/tool.rb'' world0) \<noteq> Inl ValidationError
   \<and> launched (snd (getServerTools e ''/srv/tool.rb'' world0)) = [(execPath e, ''/srv/tool.rb'')]"
  by (simp add: connectToServer_def getServerTools_def start_client_def launch_command_def
      endsWith_def world0_def Let_def split: backend_behaviour.split)

section \<open>Properties: discovery and the registry\<close>

lemma getServerTools_unreachable:
  "advertised e p = None \<Longrightarrow> \<exists>err w'. getServerTools e p w = (Inl err, w')"
  by (simp add: getServerTools_def start_client_def advertised_def Let_def
      split: backend_behaviour.splits)

lemma getServerTools_reachable:
  "advertised e p = Some ts \<Longrightarrow> \<exists>w'. getServerTools e p w = (Inr (ts, next_handle w), w')"
  by (simp add: getServerTools_def start_client_def advertised_def Let_def
      split: backend_behaviour.splits)

lemma discover_paths_tools:
  "map (\<lambda>i. (path i, tools i)) (fst (discover e cands acc w))
     = map (\<lambda>i. (path i, tools i)) acc @ reachable e cands"
proof (induction cands arbitrary: acc w)
  case Nil
  then show ?case by (simp add: reachable_def)
next
  case (Cons p ps)
  show ?case
  proof (cases "advertised e p")
    case None
    from getServerTools_unreachable [OF None] obtain err w'
      where "getServerTools e p w = (Inl err, w')" by blast
    then show ?thesis
      using Cons.IH [of acc w'] None by (simp add: reachable_def)
  next
    case (Some ts)
    from getServerTools_reachable [OF Some] obtain w'
      where "getServerTools e p w = (Inr (ts, next_handle w), w')" by blast
    then show ?thesis
      using Cons.IH [of "acc @ [\<lparr>path = p, tools = ts, client = next_handle w\<rparr>]" w'] Some
      by (simp add: reachable_def)
  qed
qed

lemma allTools_aggregate_spec:
  "allTools infos = aggregate_spec (map (\<lambda>i. (path i, tools i)) infos)"
  by (induction infos) (simp_all add: allTools_def aggregate_spec_def)

lemma set_aggregate_spec_reachable:
  "set (aggregate_spec (reachable e cs))
     = {(p, t). p \<in> set cs \<and> (\<exists>ts. advertised e p = Some ts \<and> t \<in> set ts)}"
  by (auto simp: aggregate_spec_def reachable_def split: option.splits) (metis)+

text \<open>
  Claim C9. The registry that the selection prompt is built from, \<open>allTools\<close> of the
  servers discovery found, is the spec's aggregation of the reachable backends: flat, in
  candidate order and then in each backend's own tool order, and its entries are exactly
  the advertised tools of the reachable candidates.
\<close>

theorem allTools_is_registry_of_reachable:
  "allTools (fst (discover e SERVER_CANDIDATES [] w)) = aggregate_spec (reachable e SERVER_CANDIDATES)
   \<and> set (allTools (fst (discover e SERVER_CANDIDATES [] w)))
       = {(p, t). p \<in> set SERVER_CANDIDATES \<and> (\<exists>ts. advertised e p = Some ts \<and> t \<in> set ts)}"
proof -
  have "allTools (fst (discover e SERVER_CANDIDATES [] w)) = aggregate_spec (reachable e SERVER_CANDIDATES)"
    using discover_paths_tools [of e SERVER_CANDIDATES "[]" w] by (simp add: allTools_aggregate_spec)
  then show ?thesis by (simp add: set_aggregate_spec_reachable)
qed

text \<open>
  A failing candidate is skipped and the others are still discovered
  (\<open>discover_paths_tools\<close>); with no reachable candidate the selector fails with
  \<open>NoBackendAvailable\<close>, and when each of them failed to connect nothing is left open.
\<close>

lemma selectServerScript_none_reachable:
  assumes "\<forall>p \<in> set SERVER_CANDIDATES. advertised e p = None"
  shows "fst (selectServerScript e SERVER_CANDIDATES query w) = Inl NoBackendAvailable"
proof -
  have "reachable e SERVER_CANDIDATES = []" using assms by (simp add: reachable_def)
  then have "fst (discover e SERVER_CANDIDATES [] w) = []"
    using discover_paths_tools [of e SERVER_CANDIDATES "[]" w] by simp
  then show ?thesis by (cases "discover e SERVER_CANDIDATES [] w") (simp add: selectServerScript_def)
qed

lemma open_conns_close [simp]: "open_conns (close h w) = removeAll h (open_conns w)"
  by (simp add: close_def)

lemma next_handle_close [simp]: "next_handle (close h w) = next_handle w"
  by (simp add: close_def)

lemma discover_all_spawn_fail:
  assumes "\<forall>p \<in> set cands. backend e (launch_command e p) p = SpawnFails"
  shows "fst (discover e cands acc w) = acc \<and> open_conns (snd (discover e cands acc w)) = open_conns w"
  using assms
  by (induction cands arbitrary: w) (simp_all add: getServerTools_def start_client_def Let_def)

lemma selectServerScript_all_spawn_fail:
  assumes "\<forall>p \<in> set SERVER_CANDIDATES. backend e (launch_command e p) p = SpawnFails"
  shows "fst (selectServerScript e SERVER_CANDIDATES query w) = Inl NoBackendAvailable
         \<and> open_conns (snd (selectServerScript e SERVER_CANDIDATES query w)) = open_conns w"
  using discover_all_spawn_fail [OF assms, of "[]" w]
  by (cases "discover e SERVER_CANDIDATES [] w") (simp add: selectServerScript_def)

lemma discover_without_listTools_failure:
  assumes "\<forall>p \<in> set cands. backend e (launch_command e p) p \<noteq> ListToolsFails"
  shows "\<exists>new. fst (discover e cands acc w) = acc @ new
           \<and> open_conns (snd (discover e cands acc w)) = open_conns w @ map client new
           \<and> map path new = map fst (reachable e cands)
           \<and> (\<forall>i \<in> set new. next_handle w \<le> client i)
           \<and> distinct (map client new)"
  using assms
proof (induction cands arbitrary: acc w)
  case Nil
  show ?case by (simp add: reachable_def)
next
  case (Cons p ps)
  then have ps: "\<forall>p \<in> set ps. backend e (launch_command e p) p \<noteq> ListToolsFails" by simp
  show ?case
  proof (cases "backend e (launch_command e p) p")
    case SpawnFails
    let ?w1 = "w\<lparr>launched := launched w @ [(launch_command e p, p)]\<rparr>"
    have g: "getServerTools e p w = (Inl ConnectionError, ?w1)"
      using SpawnFails by (simp add: getServerTools_def start_client_def Let_def)
    have r: "reachable e (p # ps) = reachable e ps"
      using SpawnFails by (simp add: reachable_def advertised_def)
    from Cons.IH [OF ps, of acc ?w1] show ?thesis by (simp add: g r)
  next
    case ListToolsFails
    then show ?thesis using Cons.prems by simp
  next
    case (Advertises ts)
    let ?h = "next_handle w"
    let ?w1 = "w\<lparr>launched := launched w @ [(launch_command e p, p)],
                  next_handle := Suc (next_handle w), open_conns := open_conns w @ [next_handle w]\<rparr>"
    let ?info = "\<lparr>path = p, tools = ts, client = ?h\<rparr>"
    have g: "getServerTools e p w = (Inr (ts, ?h), ?w1)"
      using Advertises by (simp add: getServerTools_def start_client_def Let_def)
    have r: "reachable e (p # ps) = (p, ts) # reachable e ps"
      using Advertises by (simp add: reachable_def advertised_def)
    from Cons.IH [OF ps, of "acc @ [?info]" ?w1] obtain new where new:
      "fst (discover e ps (acc @ [?info]) ?w1) = (acc @ [?info]) @ new"
      "open_conns (snd (discover e ps (acc @ [?info]) ?w1)) = open_conns ?w1 @ map client new"
      "map path new = map fst (reachable e ps)"
      "\<forall>i \<in> set new. next_handle ?w1 \<le> client i"
      "distinct (map client new)"
      by blast
    have "?h \<notin> client ` set new" using new(4) by auto
    then show ?thesis
      using new by (intro exI [of _ "?info # new"]) (auto simp: g r)
  qed
qed

text \<open>
  Claim C3. When every candidate fails the selector is to fail with \<open>NoBackendAvailable\<close>
  and leave nothing open. It does fail so, but the connection of a candidate whose
  \<open>listTools\<close> failed is still open.
\<close>

theorem selectServerScript_none_available_leaves_open:
  "selectServerScript
      (env_weather ''path=/srv/weather.js, name=get_weather'' ''name=get_weather, args={}'')
      [''/srv/stuck.js'', ''/srv/down.js''] ''weather in Tokyo?'' world0
     = (Inl NoBackendAvailable,
        \<lparr>next_handle = 1, open_conns = [0],
          launched = [(''node'', ''/srv/stuck.js''), (''node'', ''/srv/down.js'')],
          tool_calls = []\<rparr>)"
  by code_simp

section \<open>Properties: the patterns matched on the model's reply\<close>

lemma leftmost_SomeD: "leftmost at t = Some m \<Longrightarrow> \<exists>pre s. t = pre @ s \<and> at s = Some m"
proof (induction t)
  case Nil
  then show ?case by simp
next
  case (Cons c r)
  show ?case
  proof (cases "at (c # r)")
    case None
    with Cons obtain pre s where "r = pre @ s" "at s = Some m" by auto
    then show ?thesis by (intro exI [of _ "c # pre"] exI [of _ s]) simp
  next
    case (Some m')
    with Cons.prems have "at (c # r) = Some m" by simp
    then show ?thesis by (intro exI [of _ "[]"] exI [of _ "c # r"]) simp
  qed
qed

lemma leftmost_SomeI: "at s = Some m \<Longrightarrow> \<exists>m'. leftmost at (pre @ s) = Some m'"
proof (induction pre)
  case Nil
  then show ?case by (cases s) simp_all
next
  case (Cons c pre)
  then show ?case by (cases "at (c # pre @ s)") auto
qed

lemma lazy_group_SomeD:
  "lazy_group rest acc s = Some (g, x) \<Longrightarrow>
     \<exists>p s'. s = p @ s' \<and> g = acc @ p \<and> rest s' = Some x \<and> (\<forall>c \<in> set p. \<not> is_line_terminator c)"
proof (induction s arbitrary: acc)
  case Nil
  then show ?case by (auto split: option.splits)
next
  case (Cons c r)
  show ?case
  proof (cases "rest (c # r)")
    case (Some y)
    with Cons.prems have "g = acc" "y = x" by simp_all
    with Some show ?thesis by (intro exI [of _ "[]"] exI [of _ "c # r"]) simp
  next
    case None
    with Cons.prems have nt: "\<not> is_line_terminator c" and "lazy_group rest (acc @ [c]) r = Some (g, x)"
      by (simp_all split: if_splits)
    from Cons.IH [OF this(2)] obtain p s' where
      "r = p @ s'" "g = (acc @ [c]) @ p" "rest s' = Some x" "\<forall>c \<in> set p. \<not> is_line_terminator c"
      by blast
    with nt show ?thesis by (intro exI [of _ "c # p"] exI [of _ s']) simp
  qed
qed

lemma lazy_group_SomeI:
  "rest s' = Some x \<Longrightarrow> \<forall>c \<in> set p. \<not> is_line_terminator c \<Longrightarrow>
     \<exists>m. lazy_group rest acc (p @ s') = Some m"
proof (induction p arbitrary: acc)
  case Nil
  then show ?case by (cases s') simp_all
next
  case (Cons c p)
  then show ?case by (cases "rest (c # p @ s')") auto
qed

lemma after_comma_Some_iff:
  assumes "key \<noteq> []" and "\<not> is_white_space (hd key)"
  shows "after_comma key rest s = Some x \<longleftrightarrow>
     (\<exists>ws r. s = CHR '','' # ws @ key @ r \<and> (\<forall>c \<in> set ws. is_white_space c) \<and> rest r = Some x)"
proof
  assume a: "after_comma key rest s = Some x"
  then obtain r0 where s: "s = CHR '','' # r0"
    by (cases s) (auto simp: after_comma_def split: if_splits)
  let ?ws = "takeWhile is_white_space r0" and ?r1 = "dropWhile is_white_space r0"
  from a s have p: "prefix key ?r1" and r: "rest (drop (length key) ?r1) = Some x"
    by (auto simp: after_comma_def Let_def split: if_splits)
  from p obtain r where r1: "?r1 = key @ r" by (auto simp: prefix_def)
  have "r0 = ?ws @ key @ r" using r1 takeWhile_dropWhile_id [of is_white_space r0] by simp
  moreover have "\<forall>c \<in> set ?ws. is_white_space c" by (auto dest: set_takeWhileD)
  moreover have "rest r = Some x" using r r1 by simp
  ultimately show "\<exists>ws r. s = CHR '','' # ws @ key @ r \<and> (\<forall>c \<in> set ws. is_white_space c) \<and> rest r = Some x"
    using s by blast
next
  assume "\<exists>ws r. s = CHR '','' # ws @ key @ r \<and> (\<forall>c \<in> set ws. is_white_space c) \<and> rest r = Some x"
  then obtain ws r where s: "s = CHR '','' # ws @ key @ r" and ws: "\<forall>c \<in> set ws. is_white_space c"
    and r: "rest r = Some x" by blast
  obtain k ks where key: "key = k # ks" using assms(1) by (cases key) auto
  have "dropWhile is_white_space (ws @ key @ r) = key @ r"
    using ws assms(2) key by (simp add: dropWhile_append3)
  then show "after_comma key rest s = Some x"
    using s r by (simp add: after_comma_def)
qed

lemma two_key_match_iff:
  assumes "key \<noteq> []" and "\<not> is_white_space (hd key)"
  shows "(\<exists>m. leftmost (\<lambda>s. if prefix k1 s
                              then lazy_group (after_comma key rest) [] (drop (length k1) s)
                              else None) t = Some m)
     \<longleftrightarrow> (\<exists>pre p ws r x. t = pre @ k1 @ p @ CHR '','' # ws @ key @ r
            \<and> (\<forall>c \<in> set p. \<not> is_line_terminator c) \<and> (\<forall>c \<in> set ws. is_white_space c)
            \<and> rest r = Some x)"
  (is "(\<exists>m. leftmost ?at t = Some m) \<longleftrightarrow> ?R")
proof
  assume "\<exists>m. leftmost ?at t = Some m"
  then obtain m where "leftmost ?at t = Some m" by blast
  from leftmost_SomeD [OF this] obtain pre s where t: "t = pre @ s" and at: "?at s = Some m" by blast
  from at have pk: "prefix k1 s" and lg: "lazy_group (after_comma key rest) [] (drop (length k1) s) = Some m"
    by (simp_all split: if_splits)
  from pk obtain s1 where s: "s = k1 @ s1" by (auto simp: prefix_def)
  obtain g x where m: "m = (g, x)" by (cases m)
  from lazy_group_SomeD [OF lg [unfolded m]] s obtain p s' where
    s1: "s1 = p @ s'" and ac: "after_comma key rest s' = Some x"
    and p: "\<forall>c \<in> set p. \<not> is_line_terminator c" by auto
  from ac obtain ws r where "s' = CHR '','' # ws @ key @ r" "\<forall>c \<in> set ws. is_white_space c" "rest r = Some x"
    unfolding after_comma_Some_iff [OF assms] by blast
  with t s s1 p have "t = pre @ k1 @ p @ CHR '','' # ws @ key @ r" by simp
  with p \<open>\<forall>c \<in> set ws. is_white_space c\<close> \<open>rest r = Some x\<close> show ?R by blast
next
  assume ?R
  then obtain pre p ws r x where t: "t = pre @ k1 @ p @ CHR '','' # ws @ key @ r"
    and p: "\<forall>c \<in> set p. \<not> is_line_terminator c" and ws: "\<forall>c \<in> set ws. is_white_space c"
    and r: "rest r = Some x" by blast
  have "after_comma key rest (CHR '','' # ws @ key @ r) = Some x"
    unfolding after_comma_Some_iff [OF assms] using ws r by blast
  from lazy_group_SomeI [where rest = "after_comma key rest" and s' = "CHR '','' # ws @ key @ r"
        and acc = "[]", OF this p] obtain m
    where "lazy_group (after_comma key rest) [] (p @ CHR '','' # ws @ key @ r) = Some m" by blast
  then have "?at (k1 @ p @ CHR '','' # ws @ key @ r) = Some m" by simp
  from leftmost_SomeI [of ?at, OF this, of pre] show "\<exists>m. leftmost ?at t = Some m"
    using t by simp
qed

text \<open>
  What the two patterns accept, said without the matcher: somewhere in the reply the first
  key, then on the same line a comma, white space (line breaks included) and the second key;
  for the tool call an opening brace after it and a closing brace on that line.
\<close>

lemma match_selection_iff:
  "(\<exists>m. match_selection t = Some m) \<longleftrightarrow>
     (\<exists>pre p ws r. t = pre @ ''path='' @ p @ CHR '','' # ws @ ''name='' @ r
        \<and> (\<forall>c \<in> set p. \<not> is_line_terminator c) \<and> (\<forall>c \<in> set ws. is_white_space c))"
proof -
  have k: "''name='' \<noteq> []" "\<not> is_white_space (hd ''name='')" by (simp_all add: is_white_space_def)
  have l: "length ''path='' = 5" by simp
  show ?thesis
    unfolding match_selection_def
    using two_key_match_iff [OF k, of "''path=''" greedy_line t, unfolded l]
    by (simp add: greedy_line_def)
qed

lemma braces_group_Some_iff:
  "(\<exists>x. braces_group s = Some x) \<longleftrightarrow>
     (\<exists>body r. s = CHR ''{'' # body @ CHR ''}'' # r \<and> (\<forall>c \<in> set body. \<not> is_line_terminator c))"
proof
  assume "\<exists>x. braces_group s = Some x"
  then obtain x where a: "braces_group s = Some x" by blast
  then obtain r0 where s: "s = CHR ''{'' # r0"
    by (cases s) (auto simp: braces_group_def split: if_splits)
  let ?line = "takeWhile (\<lambda>c. \<not> is_line_terminator c) r0"
  from a s have "rev (dropWhile (\<lambda>c. c \<noteq> CHR ''}'') (rev ?line)) \<noteq> []"
    by (auto simp: braces_group_def Let_def split: if_splits)
  then have "CHR ''}'' \<in> set ?line"
    by (auto simp: dropWhile_eq_Nil_conv)
  then obtain body l2 where line: "?line = body @ CHR ''}'' # l2" by (auto simp: in_set_conv_decomp)
  have "r0 = ?line @ dropWhile (\<lambda>c. \<not> is_line_terminator c) r0" by simp
  then have "r0 = body @ CHR ''}'' # (l2 @ dropWhile (\<lambda>c. \<not> is_line_terminator c) r0)"
    unfolding line by simp
  moreover have "\<forall>c \<in> set body. \<not> is_line_terminator c"
  proof
    fix c assume "c \<in> set body"
    then have "c \<in> set ?line" unfolding line by simp
    then show "\<not> is_line_terminator c" by (rule set_takeWhileD [THEN conjunct2])
  qed
  ultimately show "\<exists>body r. s = CHR ''{'' # body @ CHR ''}'' # r \<and> (\<forall>c \<in> set body. \<not> is_line_terminator c)"
    using s by blast
next
  assume "\<exists>body r. s = CHR ''{'' # body @ CHR ''}'' # r \<and> (\<forall>c \<in> set body. \<not> is_line_terminator c)"
  then obtain body r where s: "s = CHR ''{'' # body @ CHR ''}'' # r"
    and b: "\<forall>c \<in> set body. \<not> is_line_terminator c" by blast
  have "takeWhile (\<lambda>c. \<not> is_line_terminator c) (body @ CHR ''}'' # r)
          = body @ CHR ''}'' # takeWhile (\<lambda>c. \<not> is_line_terminator c) r"
    using b by (simp add: takeWhile_append2 is_line_terminator_def)
  then show "\<exists>x. braces_group s = Some x"
    by (simp add: s braces_group_def Let_def dropWhile_eq_Nil_conv)
qed

lemma match_tool_call_iff:
  "(\<exists>m. match_tool_call t = Some m) \<longleftrightarrow>
     (\<exists>pre p ws body r. t = pre @ ''name='' @ p @ CHR '','' # ws @ ''args='' @ CHR ''{'' # body @ CHR ''}'' # r
        \<and> (\<forall>c \<in> set p. \<not> is_line_terminator c) \<and> (\<forall>c \<in> set ws. is_white_space c)
        \<and> (\<forall>c \<in> set body. \<not> is_line_terminator c))"
proof -
  have k: "''args='' \<noteq> []" "\<not> is_white_space (hd ''args='')" by (simp_all add: is_white_space_def)
  have l: "length ''name='' = 5" by simp
  have "(\<exists>m. match_tool_call t = Some m) \<longleftrightarrow>
     (\<exists>pre p ws r. t = pre @ ''name='' @ p @ CHR '','' # ws @ ''args='' @ r
        \<and> (\<forall>c \<in> set p. \<not> is_line_terminator c) \<and> (\<forall>c \<in> set ws. is_white_space c)
        \<and> (\<exists>x. braces_group r = Some x))"
    unfolding match_tool_call_def
    using two_key_match_iff [OF k, of "''name=''" braces_group t, unfolded l] by simp
  also have "\<dots> \<longleftrightarrow> (\<exists>pre p ws body r. t = pre @ ''name='' @ p @ CHR '','' # ws @ ''args='' @ CHR ''{'' # body @ CHR ''}'' # r
        \<and> (\<forall>c \<in> set p. \<not> is_line_terminator c) \<and> (\<forall>c \<in> set ws. is_white_space c)
        \<and> (\<forall>c \<in> set body. \<not> is_line_terminator c))"
    unfolding braces_group_Some_iff by (auto, blast+)
  finally show ?thesis .
qed

text \<open>
  The matcher and the predicates on the text agree: the match is the first occurrence, its
  first group the shortest one there, its second group the rest of the line or the text up
  to the last closing brace of the line.
\<close>

lemma leftmost_first:
  "leftmost at t = Some m \<Longrightarrow>
     \<exists>pre s. t = pre @ s \<and> at s = Some m
        \<and> (\<forall>pre' s'. t = pre' @ s' \<longrightarrow> length pre' < length pre \<longrightarrow> at s' = None)"
proof (induction t)
  case Nil
  then show ?case by simp
next
  case (Cons c r)
  show ?case
  proof (cases "at (c # r)")
    case (Some m')
    with Cons.prems have "at (c # r) = Some m" by simp
    then show ?thesis by (intro exI [of _ "[]"] exI [of _ "c # r"]) simp
  next
    case None
    with Cons.prems have "leftmost at r = Some m" by simp
    from Cons.IH [OF this] obtain pre s where r: "r = pre @ s" and s: "at s = Some m"
      and mn: "\<forall>pre' s'. r = pre' @ s' \<longrightarrow> length pre' < length pre \<longrightarrow> at s' = None" by blast
    have "\<forall>pre' s'. c # r = pre' @ s' \<longrightarrow> length pre' < length (c # pre) \<longrightarrow> at s' = None"
    proof (intro allI impI)
      fix pre' s' assume e: "c # r = pre' @ s'" and l: "length pre' < length (c # pre)"
      show "at s' = None"
      proof (cases pre')
        case Nil
        with e None show ?thesis by simp
      next
        case (Cons d pre0)
        with e l mn show ?thesis by simp
      qed
    qed
    with r s show ?thesis by (intro exI [of _ "c # pre"] exI [of _ s]) simp
  qed
qed

lemma leftmost_firstI:
  "at s = Some m \<Longrightarrow> (\<forall>pre' s'. pre @ s = pre' @ s' \<longrightarrow> length pre' < length pre \<longrightarrow> at s' = None)
     \<Longrightarrow> leftmost at (pre @ s) = Some m"
proof (induction pre)
  case Nil
  then show ?case by (cases s) simp_all
next
  case (Cons c pre)
  have "at (c # pre @ s) = None" using Cons.prems(2) [rule_format, of "[]" "c # pre @ s"] by simp
  moreover have "\<forall>pre' s'. pre @ s = pre' @ s' \<longrightarrow> length pre' < length pre \<longrightarrow> at s' = None"
  proof (intro allI impI)
    fix pre' s' assume "pre @ s = pre' @ s'" "length pre' < length pre"
    then show "at s' = None" using Cons.prems(2) [rule_format, of "c # pre'" s'] by simp
  qed
  ultimately show ?case using Cons.IH [OF Cons.prems(1)] by simp
qed

lemma lazy_group_first:
  "lazy_group rest acc s = Some (g, x) \<Longrightarrow>
     \<exists>p s'. s = p @ s' \<and> g = acc @ p \<and> rest s' = Some x \<and> (\<forall>c \<in> set p. \<not> is_line_terminator c)
        \<and> (\<forall>p' s''. s = p' @ s'' \<longrightarrow> length p' < length p \<longrightarrow> rest s'' = None)"
proof (induction s arbitrary: acc)
  case Nil
  then show ?case by (auto split: option.splits)
next
  case (Cons c r)
  show ?case
  proof (cases "rest (c # r)")
    case (Some y)
    with Cons.prems have "g = acc" "y = x" by simp_all
    with Some show ?thesis by (intro exI [of _ "[]"] exI [of _ "c # r"]) simp
  next
    case None
    with Cons.prems have nt: "\<not> is_line_terminator c" and "lazy_group rest (acc @ [c]) r = Some (g, x)"
      by (simp_all split: if_splits)
    from Cons.IH [OF this(2)] obtain p s' where
      r: "r = p @ s'" and g: "g = (acc @ [c]) @ p" and x: "rest s' = Some x"
      and p: "\<forall>c \<in> set p. \<not> is_line_terminator c"
      and mn: "\<forall>p' s''. r = p' @ s'' \<longrightarrow> length p' < length p \<longrightarrow> rest s'' = None"
      by blast
    have "\<forall>p' s''. c # r = p' @ s'' \<longrightarrow> length p' < length (c # p) \<longrightarrow> rest s'' = None"
    proof (intro allI impI)
      fix p' s'' assume e: "c # r = p' @ s''" and l: "length p' < length (c # p)"
      show "rest s'' = None"
      proof (cases p')
        case Nil
        with e None show ?thesis by simp
      next
        case (Cons d p0)
        with e l mn show ?thesis by simp
      qed
    qed
    with r g x p nt show ?thesis by (intro exI [of _ "c # p"] exI [of _ s']) simp
  qed
qed

lemma lazy_group_firstI:
  "rest s' = Some x \<Longrightarrow> \<forall>c \<in> set p. \<not> is_line_terminator c \<Longrightarrow>
     (\<forall>p' s''. p @ s' = p' @ s'' \<longrightarrow> length p' < length p \<longrightarrow> rest s'' = None)
     \<Longrightarrow> lazy_group rest acc (p @ s') = Some (acc @ p, x)"
proof (induction p arbitrary: acc)
  case Nil
  then show ?case by (cases s') simp_all
next
  case (Cons c p)
  have n: "rest (c # p @ s') = None" using Cons.prems(3) [rule_format, of "[]" "c # p @ s'"] by simp
  have m: "\<forall>p' s''. p @ s' = p' @ s'' \<longrightarrow> length p' < length p \<longrightarrow> rest s'' = None"
  proof (intro allI impI)
    fix p' s'' assume "p @ s' = p' @ s''" "length p' < length p"
    then show "rest s'' = None" using Cons.prems(3) [rule_format, of "c # p'" s''] by simp
  qed
  have "lazy_group rest (acc @ [c]) (p @ s') = Some ((acc @ [c]) @ p, x)"
    using Cons.IH [OF Cons.prems(1) _ m] Cons.prems(2) by simp
  then show ?case using n Cons.prems(2) by simp
qed

lemma shorter_split:
  "p @ s = p' @ s' \<Longrightarrow> length p' < length p \<Longrightarrow> \<exists>q. p = p' @ q \<and> s' = q @ s"
  by (auto simp: append_eq_append_conv2)

lemma key_pair_tryD:
  assumes k: "key \<noteq> []" "\<not> is_white_space (hd key)"
    and pk: "prefix k1 s"
    and lg: "lazy_group (after_comma key rest) [] (drop (length k1) s) = Some (p, y)"
  shows "\<exists>ws r. s = k1 @ p @ CHR '','' # ws @ key @ r \<and> (\<forall>c \<in> set p. \<not> is_line_terminator c)
                \<and> (\<forall>c \<in> set ws. is_white_space c) \<and> rest r = Some y
                \<and> (\<forall>p' s''. p @ CHR '','' # ws @ key @ r = p' @ s'' \<longrightarrow> length p' < length p
                       \<longrightarrow> after_comma key rest s'' = None)"
proof -
  let ?ac = "after_comma key rest"
  from pk obtain s1 where s: "s = k1 @ s1" by (auto simp: prefix_def)
  have lg1: "lazy_group ?ac [] s1 = Some (p, y)" using lg s by simp
  from lazy_group_first [OF lg1] obtain p0 s' where
    s1: "s1 = p0 @ s'" and p0: "p = [] @ p0" and ac: "?ac s' = Some y" and p: "\<forall>c \<in> set p0. \<not> is_line_terminator c"
    and mn: "\<forall>p' s''. s1 = p' @ s'' \<longrightarrow> length p' < length p0 \<longrightarrow> ?ac s'' = None"
    by blast
  from p0 have pp: "p0 = p" by simp
  from ac obtain ws r where s': "s' = CHR '','' # ws @ key @ r"
    and ws: "\<forall>c \<in> set ws. is_white_space c" and r: "rest r = Some y"
    unfolding after_comma_Some_iff [OF k] by blast
  have e1: "s = k1 @ p @ CHR '','' # ws @ key @ r" using s s1 s' pp by simp
  have e2: "\<forall>p' s''. p @ CHR '','' # ws @ key @ r = p' @ s'' \<longrightarrow> length p' < length p \<longrightarrow> ?ac s'' = None"
    using mn unfolding s1 s' pp .
  show ?thesis
    by (rule exI [of _ ws], rule exI [of _ r]) (intro conjI e1 e2 ws r p [unfolded pp])
qed

lemma key_pair_tryI:
  assumes k: "key \<noteq> []" "\<not> is_white_space (hd key)"
    and p: "\<forall>c \<in> set p. \<not> is_line_terminator c" and ws: "\<forall>c \<in> set ws. is_white_space c"
    and r: "rest r = Some y"
  shows "\<exists>m. lazy_group (after_comma key rest) [] (p @ CHR '','' # ws @ key @ r) = Some m"
proof -
  have "after_comma key rest (CHR '','' # ws @ key @ r) = Some y"
    unfolding after_comma_Some_iff [OF k] using ws r by blast
  from lazy_group_SomeI [where rest = "after_comma key rest" and s' = "CHR '','' # ws @ key @ r" and acc = "[]",
      OF this p]
  show ?thesis .
qed

lemma first_key_pair_matchD:
  assumes k: "key \<noteq> []" "\<not> is_white_space (hd key)"
    and lm: "leftmost (\<lambda>s. if prefix k1 s
                        then lazy_group (after_comma key rest) [] (drop (length k1) s)
                        else None) t = Some (g, x)"
  shows "\<exists>r. first_key_pair k1 key (\<lambda>r. rest r \<noteq> None) t g r \<and> rest r = Some x"
proof -
  let ?ac = "after_comma key rest"
  let ?at = "\<lambda>s. if prefix k1 s then lazy_group ?ac [] (drop (length k1) s) else None"
  from leftmost_first [OF lm] obtain pre s where t: "t = pre @ s" and at: "?at s = Some (g, x)"
    and mn1: "\<forall>pre' s'. t = pre' @ s' \<longrightarrow> length pre' < length pre \<longrightarrow> ?at s' = None" by blast
  from at have pk: "prefix k1 s" and lg: "lazy_group ?ac [] (drop (length k1) s) = Some (g, x)"
    by (simp_all split: if_splits)
  from key_pair_tryD [OF k pk lg] obtain ws r where s: "s = k1 @ g @ CHR '','' # ws @ key @ r"
    and g: "\<forall>c \<in> set g. \<not> is_line_terminator c" and ws: "\<forall>c \<in> set ws. is_white_space c"
    and r: "rest r = Some x"
    and mn2: "\<forall>p' s''. g @ CHR '','' # ws @ key @ r = p' @ s'' \<longrightarrow> length p' < length g \<longrightarrow> ?ac s'' = None"
    by blast
  have kp: "key_pair_at k1 key t pre g r"
    unfolding key_pair_at_def using t s g ws by blast
  have first: "length pre < length pre' \<or> (length pre = length pre' \<and> length g \<le> length p')"
    if kp': "key_pair_at k1 key t pre' p' r'" and ok': "rest r' \<noteq> None" for pre' p' r'
  proof -
    from kp' obtain ws' where t': "t = pre' @ k1 @ p' @ CHR '','' # ws' @ key @ r'"
      and p': "\<forall>c \<in> set p'. \<not> is_line_terminator c" and ws': "\<forall>c \<in> set ws'. is_white_space c"
      unfolding key_pair_at_def by blast
    from ok' obtain y where y: "rest r' = Some y" by blast
    from key_pair_tryI [where rest = rest and r = r', OF k p' ws' y] obtain m
      where m: "lazy_group ?ac [] (p' @ CHR '','' # ws' @ key @ r') = Some m" by blast
    have nn: "?at (k1 @ p' @ CHR '','' # ws' @ key @ r') = Some m" using m by simp
    have n1: "\<not> length pre' < length pre"
    proof
      assume "length pre' < length pre"
      with mn1 [rule_format, OF t'] have "?at (k1 @ p' @ CHR '','' # ws' @ key @ r') = None" .
      with nn show False by simp
    qed
    have n2: "length g \<le> length p'" if eq: "length pre = length pre'"
    proof (rule ccontr)
      assume "\<not> length g \<le> length p'"
      then have l: "length p' < length g" by simp
      from t t' s eq have "g @ CHR '','' # ws @ key @ r = p' @ CHR '','' # ws' @ key @ r'" by simp
      from mn2 [rule_format, OF this l] have "?ac (CHR '','' # ws' @ key @ r') = None" .
      moreover have "?ac (CHR '','' # ws' @ key @ r') = Some y"
        unfolding after_comma_Some_iff [OF k] using ws' y by blast
      ultimately show False by simp
    qed
    from n1 n2 show ?thesis by linarith
  qed
  have "first_key_pair k1 key (\<lambda>r. rest r \<noteq> None) t g r"
    unfolding first_key_pair_def
  proof (rule exI [of _ pre], intro conjI allI impI)
    show "key_pair_at k1 key t pre g r" by (rule kp)
    show "rest r \<noteq> None" using r by simp
    fix pre' p' r' assume "key_pair_at k1 key t pre' p' r' \<and> rest r' \<noteq> None"
    then show "length pre < length pre' \<or> (length pre = length pre' \<and> length g \<le> length p')"
      using first by blast
  qed
  with r show ?thesis by blast
qed

lemma first_key_pair_matchI:
  assumes k: "key \<noteq> []" "\<not> is_white_space (hd key)"
    and fk: "first_key_pair k1 key (\<lambda>r. rest r \<noteq> None) t g r" and r: "rest r = Some x"
  shows "leftmost (\<lambda>s. if prefix k1 s
                        then lazy_group (after_comma key rest) [] (drop (length k1) s)
                        else None) t = Some (g, x)"
proof -
  let ?ac = "after_comma key rest"
  let ?at = "\<lambda>s. if prefix k1 s then lazy_group ?ac [] (drop (length k1) s) else None"
  from fk obtain pre where kp: "key_pair_at k1 key t pre g r"
    and first: "\<And>pre' p' r'. key_pair_at k1 key t pre' p' r' \<Longrightarrow> rest r' \<noteq> None \<Longrightarrow>
            length pre < length pre' \<or> (length pre = length pre' \<and> length g \<le> length p')"
    unfolding first_key_pair_def by blast
  from kp obtain ws where t: "t = pre @ k1 @ g @ CHR '','' # ws @ key @ r"
    and g: "\<forall>c \<in> set g. \<not> is_line_terminator c" and ws: "\<forall>c \<in> set ws. is_white_space c"
    unfolding key_pair_at_def by blast
  define s0 where "s0 = CHR '','' # ws @ key @ r"
  have ac: "?ac s0 = Some x" unfolding after_comma_Some_iff [OF k] s0_def using ws r by blast
  have mn2: "\<forall>p' s''. g @ s0 = p' @ s'' \<longrightarrow> length p' < length g \<longrightarrow> ?ac s'' = None"
  proof (intro allI impI, rule ccontr)
    fix p' s'' assume e: "g @ s0 = p' @ s''" and l: "length p' < length g" and nn: "?ac s'' \<noteq> None"
    from shorter_split [OF e l] obtain q where q: "g = p' @ q" by blast
    have p': "\<forall>c \<in> set p'. \<not> is_line_terminator c" using g unfolding q by simp
    from nn obtain y where "?ac s'' = Some y" by blast
    then obtain ws'' r'' where s'': "s'' = CHR '','' # ws'' @ key @ r''"
      and ws'': "\<forall>c \<in> set ws''. is_white_space c" and y: "rest r'' = Some y"
      unfolding after_comma_Some_iff [OF k] by blast
    have "t = pre @ k1 @ g @ s0" using t unfolding s0_def .
    also have "\<dots> = pre @ k1 @ p' @ s''" unfolding e ..
    finally have "t = pre @ k1 @ p' @ CHR '','' # ws'' @ key @ r''" unfolding s'' .
    then have "key_pair_at k1 key t pre p' r''" unfolding key_pair_at_def using p' ws'' by blast
    from first [OF this] y have "length g \<le> length p'" by simp
    with l show False by simp
  qed
  have lg: "lazy_group ?ac [] (g @ s0) = Some ([] @ g, x)"
    by (rule lazy_group_firstI [OF ac g mn2])
  have at: "?at (k1 @ g @ s0) = Some (g, x)" using lg by simp
  have mn1: "\<forall>pre' s'. pre @ (k1 @ g @ s0) = pre' @ s' \<longrightarrow> length pre' < length pre \<longrightarrow> ?at s' = None"
  proof (intro allI impI, rule ccontr)
    fix pre' s' assume e: "pre @ (k1 @ g @ s0) = pre' @ s'" and l: "length pre' < length pre"
      and nn: "?at s' \<noteq> None"
    from nn obtain m where a0: "?at s' = Some m" by blast
    obtain p' y where m: "m = (p', y)" by (cases m)
    from a0 have pk: "prefix k1 s'"
      by (cases "prefix k1 s'") simp_all
    with a0 have lg': "lazy_group ?ac [] (drop (length k1) s') = Some (p', y)"
      unfolding m by simp
    from key_pair_tryD [OF k pk lg'] obtain ws' r' where s': "s' = k1 @ p' @ CHR '','' # ws' @ key @ r'"
      and p': "\<forall>c \<in> set p'. \<not> is_line_terminator c" and ws': "\<forall>c \<in> set ws'. is_white_space c"
      and y: "rest r' = Some y" by blast
    have "t = pre @ (k1 @ g @ s0)" using t unfolding s0_def .
    also have "\<dots> = pre' @ s'" by (rule e)
    finally have "t = pre' @ k1 @ p' @ CHR '','' # ws' @ key @ r'" using s' by simp
    then have "key_pair_at k1 key t pre' p' r'" unfolding key_pair_at_def using p' ws' by blast
    from first [OF this] y have "length pre \<le> length pre'" by auto
    with l show False by simp
  qed
  have "leftmost ?at (pre @ (k1 @ g @ s0)) = Some (g, x)"
    by (rule leftmost_firstI [OF at mn1])
  then show ?thesis unfolding t s0_def .
qed

lemma first_key_pair_match:
  assumes k: "key \<noteq> []" "\<not> is_white_space (hd key)"
  shows "leftmost (\<lambda>s. if prefix k1 s
                        then lazy_group (after_comma key rest) [] (drop (length k1) s)
                        else None) t = Some (g, x)
     \<longleftrightarrow> (\<exists>r. first_key_pair k1 key (\<lambda>r. rest r \<noteq> None) t g r \<and> rest r = Some x)"
proof
  assume "leftmost (\<lambda>s. if prefix k1 s
                        then lazy_group (after_comma key rest) [] (drop (length k1) s)
                        else None) t = Some (g, x)"
  then show "\<exists>r. first_key_pair k1 key (\<lambda>r. rest r \<noteq> None) t g r \<and> rest r = Some x"
    by (rule first_key_pair_matchD [OF k])
next
  assume "\<exists>r. first_key_pair k1 key (\<lambda>r. rest r \<noteq> None) t g r \<and> rest r = Some x"
  then obtain r where "first_key_pair k1 key (\<lambda>r. rest r \<noteq> None) t g r" "rest r = Some x" by blast
  then show "leftmost (\<lambda>s. if prefix k1 s
                        then lazy_group (after_comma key rest) [] (drop (length k1) s)
                        else None) t = Some (g, x)"
    by (rule first_key_pair_matchI [OF k])
qed

lemma takeWhile_line:
  assumes "\<forall>c \<in> set g. P c" and "r' = [] \<or> \<not> P (hd r')"
  shows "takeWhile P (g @ r') = g"
proof -
  have "takeWhile P r' = []" using assms(2) by (cases r') auto
  then show ?thesis using assms(1) by (simp add: takeWhile_append2)
qed

lemma rest_of_line_iff:
  "rest_of_line r g \<longleftrightarrow> g = takeWhile (\<lambda>c. \<not> is_line_terminator c) r"
proof
  assume "rest_of_line r g"
  then obtain r' where r: "r = g @ r'" and g: "\<forall>c \<in> set g. \<not> is_line_terminator c"
    and r': "r' = [] \<or> is_line_terminator (hd r')" unfolding rest_of_line_def by blast
  have "takeWhile (\<lambda>c. \<not> is_line_terminator c) (g @ r') = g"
    by (rule takeWhile_line) (use g r' in auto)
  then show "g = takeWhile (\<lambda>c. \<not> is_line_terminator c) r" unfolding r by simp
next
  let ?P = "\<lambda>c. \<not> is_line_terminator c"
  assume g: "g = takeWhile ?P r"
  have a: "r = g @ dropWhile ?P r" unfolding g by simp
  have b: "\<forall>c \<in> set g. \<not> is_line_terminator c" unfolding g by (auto dest: set_takeWhileD)
  have c: "dropWhile ?P r = [] \<or> is_line_terminator (hd (dropWhile ?P r))"
    using hd_dropWhile [of ?P r] by blast
  show "rest_of_line r g" unfolding rest_of_line_def
    by (rule exI [of _ "dropWhile ?P r"]) (intro conjI a b c)
qed

lemma in_braces_group:
  assumes "in_braces r x" shows "braces_group r = Some x"
proof -
  let ?P = "\<lambda>c. \<not> is_line_terminator c" and ?Q = "\<lambda>c. c \<noteq> CHR ''}''"
  from assms obtain body tl r' where r: "r = CHR ''{'' # body @ CHR ''}'' # tl @ r'"
    and x: "x = CHR ''{'' # body @ ''}''"
    and body: "\<forall>c \<in> set body. \<not> is_line_terminator c"
    and tl: "\<forall>c \<in> set tl. \<not> is_line_terminator c \<and> c \<noteq> CHR ''}''"
    and r': "r' = [] \<or> is_line_terminator (hd r')"
    unfolding in_braces_def by (elim exE conjE) (rule that)
  have nl: "\<not> is_line_terminator CHR ''}''" by (simp add: is_line_terminator_def)
  have "\<forall>c \<in> set (body @ CHR ''}'' # tl). \<not> is_line_terminator c" using body tl nl by auto
  moreover have "r' = [] \<or> \<not> \<not> is_line_terminator (hd r')" using r' by simp
  ultimately have "takeWhile ?P ((body @ CHR ''}'' # tl) @ r') = body @ CHR ''}'' # tl"
    by (rule takeWhile_line)
  then have line: "takeWhile ?P (body @ CHR ''}'' # tl @ r') = body @ CHR ''}'' # tl" by simp
  have "dropWhile ?Q (rev tl) = []" using tl by (simp add: dropWhile_eq_Nil_conv)
  then have "dropWhile ?Q (rev tl @ CHR ''}'' # rev body) = CHR ''}'' # rev body"
    by (simp add: dropWhile_append3)
  then have d: "rev (dropWhile ?Q (rev (body @ CHR ''}'' # tl))) = body @ ''}''" by simp
  have "braces_group (CHR ''{'' # body @ CHR ''}'' # tl @ r') = Some (CHR ''{'' # body @ ''}'')"
    unfolding braces_group_def list.case Let_def line d by simp
  then show ?thesis unfolding r x .
qed

lemma braces_group_in:
  assumes a: "braces_group r = Some x" shows "in_braces r x"
proof -
  let ?P = "\<lambda>c. \<not> is_line_terminator c" and ?Q = "\<lambda>c. c \<noteq> CHR ''}''"
  from a obtain r0 where r: "r = CHR ''{'' # r0"
    by (cases r) (auto simp: braces_group_def split: if_splits)
  define line where "line = takeWhile ?P r0"
  define d where "d = dropWhile ?Q (rev line)"
  define rr where "rr = dropWhile ?P r0"
  define tl where "tl = rev (takeWhile ?Q (rev line))"
  have bg: "braces_group (CHR ''{'' # r0) = (if rev d = [] then None else Some (CHR ''{'' # rev d))"
    unfolding braces_group_def list.case Let_def line_def d_def by simp
  from a have dn: "d \<noteq> []" and x: "x = CHR ''{'' # rev d"
    unfolding r bg by (simp_all split: if_splits)
  from dn have "\<not> ?Q (hd d)" unfolding d_def by (rule hd_dropWhile)
  then have hd: "hd d = CHR ''}''" by simp
  obtain d' where d': "d = CHR ''}'' # d'" using dn hd by (cases d) simp_all
  have "rev line = takeWhile ?Q (rev line) @ d" unfolding d_def by simp
  then have "rev (rev line) = rev (takeWhile ?Q (rev line) @ d)" by (rule arg_cong)
  then have l: "line = rev d' @ CHR ''}'' # tl" unfolding d' tl_def by simp
  have r0: "r0 = line @ rr" unfolding line_def rr_def by simp
  have ln: "\<forall>c \<in> set line. \<not> is_line_terminator c" unfolding line_def by (auto dest: set_takeWhileD)
  have e1: "r = CHR ''{'' # rev d' @ CHR ''}'' # tl @ rr"
    unfolding r by (subst r0) (simp add: l)
  have e2: "x = CHR ''{'' # rev d' @ ''}''" unfolding x d' by simp
  have e3: "\<forall>c \<in> set (rev d'). \<not> is_line_terminator c" using ln unfolding l by simp
  have e4: "\<forall>c \<in> set tl. \<not> is_line_terminator c \<and> c \<noteq> CHR ''}''"
  proof
    fix c assume c: "c \<in> set tl"
    then have "c \<in> set line" unfolding l by simp
    with ln have c1: "\<not> is_line_terminator c" by simp
    from c have "c \<in> set (takeWhile ?Q (rev line))" unfolding tl_def by simp
    then have "c \<noteq> CHR ''}''" by (rule set_takeWhileD [THEN conjunct2])
    with c1 show "\<not> is_line_terminator c \<and> c \<noteq> CHR ''}''" by simp
  qed
  have e5: "rr = [] \<or> is_line_terminator (hd rr)"
    unfolding rr_def using hd_dropWhile [of ?P r0] by auto
  show "in_braces r x" unfolding in_braces_def
    by (rule exI [of _ "rev d'"], rule exI [of _ tl], rule exI [of _ rr])
       (intro conjI e1 e2 e3 e4 e5)
qed

lemma in_braces_iff: "in_braces r x \<longleftrightarrow> braces_group r = Some x"
  by (rule iffI) (rule in_braces_group, assumption, rule braces_group_in, assumption)

lemma has_braces_iff: "has_braces r \<longleftrightarrow> braces_group r \<noteq> None"
proof -
  have "braces_group r \<noteq> None \<longleftrightarrow> (\<exists>x. braces_group r = Some x)" by simp
  then show ?thesis unfolding braces_group_Some_iff has_braces_def by simp
qed

lemma match_selection_parse:
  "match_selection t = Some (g1, g2) \<longleftrightarrow> selection_parse t g1 g2"
proof -
  have k: "''name='' \<noteq> []" "\<not> is_white_space (hd ''name='')" by (simp_all add: is_white_space_def)
  have l: "length ''path='' = 5" by simp
  have ok: "(\<lambda>r. greedy_line r \<noteq> None) = (\<lambda>r. True)" by (simp add: greedy_line_def)
  have g: "greedy_line r = Some g2 \<longleftrightarrow> rest_of_line r g2" for r
    unfolding rest_of_line_iff greedy_line_def by auto
  have "match_selection t = Some (g1, g2) \<longleftrightarrow>
          (\<exists>r. first_key_pair ''path='' ''name='' (\<lambda>r. greedy_line r \<noteq> None) t g1 r
                \<and> greedy_line r = Some g2)"
    unfolding match_selection_def
    by (rule first_key_pair_match [OF k, where ?k1.0 = "''path=''" and rest = greedy_line, unfolded l])
  then show ?thesis unfolding ok g selection_parse_def .
qed

lemma match_tool_call_parse:
  "match_tool_call t = Some (g1, g2) \<longleftrightarrow> tool_call_parse t g1 g2"
proof -
  have k: "''args='' \<noteq> []" "\<not> is_white_space (hd ''args='')" by (simp_all add: is_white_space_def)
  have l: "length ''name='' = 5" by simp
  have ok: "(\<lambda>r. braces_group r \<noteq> None) = has_braces"
    unfolding has_braces_iff ..
  have "match_tool_call t = Some (g1, g2) \<longleftrightarrow>
          (\<exists>r. first_key_pair ''name='' ''args='' (\<lambda>r. braces_group r \<noteq> None) t g1 r
                \<and> braces_group r = Some g2)"
    unfolding match_tool_call_def
    by (rule first_key_pair_match [OF k, where ?k1.0 = "''name=''" and rest = braces_group, unfolded l])
  then show ?thesis unfolding ok in_braces_iff [symmetric] tool_call_parse_def .
qed

lemma match_selection_None_iff:
  "match_selection t = None \<longleftrightarrow> \<not> (\<exists>pre p r. key_pair_at ''path='' ''name='' t pre p r)"
proof -
  have "match_selection t = None \<longleftrightarrow> \<not> (\<exists>m. match_selection t = Some m)"
    by (cases "match_selection t") simp_all
  also have "\<dots> \<longleftrightarrow> \<not> (\<exists>pre p r. key_pair_at ''path='' ''name='' t pre p r)"
    unfolding match_selection_iff key_pair_at_def by (rule arg_cong [where f = Not]) metis
  finally show ?thesis .
qed

lemma match_tool_call_None_iff:
  "match_tool_call t = None
     \<longleftrightarrow> \<not> (\<exists>pre p r. key_pair_at ''name='' ''args='' t pre p r \<and> has_braces r)"
proof -
  have k: "''args='' \<noteq> []" "\<not> is_white_space (hd ''args='')" by (simp_all add: is_white_space_def)
  have l: "length ''name='' = 5" by simp
  have "match_tool_call t = None \<longleftrightarrow> \<not> (\<exists>m. match_tool_call t = Some m)"
    by (cases "match_tool_call t") simp_all
  also have "\<dots> \<longleftrightarrow> \<not> (\<exists>pre p ws r x. t = pre @ ''name='' @ p @ CHR '','' # ws @ ''args='' @ r
        \<and> (\<forall>c \<in> set p. \<not> is_line_terminator c) \<and> (\<forall>c \<in> set ws. is_white_space c)
        \<and> braces_group r = Some x)"
    unfolding match_tool_call_def
    using two_key_match_iff [OF k, of "''name=''" braces_group t, unfolded l] by simp
  also have "\<dots> \<longleftrightarrow> \<not> (\<exists>pre p r. key_pair_at ''name='' ''args='' t pre p r \<and> has_braces r)"
    unfolding key_pair_at_def has_braces_iff by (rule arg_cong [where f = Not]) (simp, metis)
  finally show ?thesis .
qed


section \<open>Properties: selection\<close>

lemma find_SomeD: "find P xs = Some x \<Longrightarrow> x \<in> set xs \<and> P x"
  by (induction xs) (auto split: if_splits)

lemma selectServerScript_by_match:
  assumes "discover e SERVER_CANDIDATES [] w = (allServerInfos, w1)"
    and "allServerInfos \<noteq> []"
    and "generateContent e
           (SelectionPrompt query (selection_toolListText (allTools allServerInfos))) = Some reply"
  shows "(match_selection (trim reply) = None \<longrightarrow>
            fst (selectServerScript e SERVER_CANDIDATES query w)
              = Inl (SelectionParseError (trim reply)))
       \<and> (\<forall>g1 g2. match_selection (trim reply) = Some (g1, g2) \<longrightarrow>
            ((\<forall>info \<in> set allServerInfos. path info \<noteq> trim g1) \<longrightarrow>
               fst (selectServerScript e SERVER_CANDIDATES query w)
                 = Inl (UnknownBackendSelected (trim g1)))
          \<and> (\<forall>info. find (\<lambda>i. path i = trim g1) allServerInfos = Some info \<longrightarrow>
               ((\<forall>t \<in> set (tools info). name t \<noteq> trim g2) \<longrightarrow>
                  fst (selectServerScript e SERVER_CANDIDATES query w)
                    = Inl (UnknownToolSelected (trim g2)))
             \<and> (\<forall>t. find (\<lambda>t. name t = trim g2) (tools info) = Some t \<longrightarrow>
                  fst (selectServerScript e SERVER_CANDIDATES query w) = Inr (info, t)
                  \<and> info \<in> set allServerInfos \<and> path info = trim g1
                  \<and> t \<in> set (tools info) \<and> name t = trim g2)))"
proof -
  have sel: "fst (selectServerScript e SERVER_CANDIDATES query w)
               = validate_selection allServerInfos (trim reply)"
    using assms by (simp add: selectServerScript_def split: sum.split)
  show ?thesis
    unfolding sel
    by (auto simp: validate_selection_def Let_def find_None_iff dest: find_SomeD
        split: option.splits)
qed

text \<open>
  Claim C4, amended. Once discovery has found a server and the model has replied to the
  selection prompt, the reply with its surrounding white space trimmed decides the outcome.
  If nowhere in it \<open>path=\<close> is followed on its line by a comma, white space and \<open>name=\<close>,
  the selector fails with \<open>SelectionParseError\<close> carrying the trimmed reply. Otherwise the
  reply has a parse: the backend id is the text between the first such \<open>path=\<close> and the
  first comma after it that \<open>name=\<close> follows, the tool name is the rest of the line after
  that \<open>name=\<close>, both trimmed. An id that no discovered server has gives
  \<open>UnknownBackendSelected\<close>; a name that the first server of that id does not own gives
  \<open>UnknownToolSelected\<close>; otherwise the selector returns that server and its first tool of
  that name.
\<close>

theorem selectServerScript_reply_outcomes:
  assumes "discover e SERVER_CANDIDATES [] w = (allServerInfos, w1)"
    and "allServerInfos \<noteq> []"
    and "generateContent e
           (SelectionPrompt query (selection_toolListText (allTools allServerInfos))) = Some reply"
  shows "(\<not> (\<exists>pre p r. key_pair_at ''path='' ''name='' (trim reply) pre p r) \<longrightarrow>
            fst (selectServerScript e SERVER_CANDIDATES query w)
              = Inl (SelectionParseError (trim reply)))
       \<and> ((\<exists>pre p r. key_pair_at ''path='' ''name='' (trim reply) pre p r) \<longrightarrow>
            (\<exists>g1 g2. selection_parse (trim reply) g1 g2))
       \<and> (\<forall>g1 g2. selection_parse (trim reply) g1 g2 \<longrightarrow>
            ((\<forall>info \<in> set allServerInfos. path info \<noteq> trim g1) \<longrightarrow>
               fst (selectServerScript e SERVER_CANDIDATES query w)
                 = Inl (UnknownBackendSelected (trim g1)))
          \<and> (\<forall>info. find (\<lambda>i. path i = trim g1) allServerInfos = Some info \<longrightarrow>
               ((\<forall>t \<in> set (tools info). name t \<noteq> trim g2) \<longrightarrow>
                  fst (selectServerScript e SERVER_CANDIDATES query w)
                    = Inl (UnknownToolSelected (trim g2)))
             \<and> (\<forall>t. find (\<lambda>t. name t = trim g2) (tools info) = Some t \<longrightarrow>
                  fst (selectServerScript e SERVER_CANDIDATES query w) = Inr (info, t)
                  \<and> info \<in> set allServerInfos \<and> path info = trim g1
                  \<and> t \<in> set (tools info) \<and> name t = trim g2)))"
proof (intro conjI)
  note m = selectServerScript_by_match [OF assms]
  show "\<not> (\<exists>pre p r. key_pair_at ''path='' ''name='' (trim reply) pre p r) \<longrightarrow>
            fst (selectServerScript e SERVER_CANDIDATES query w)
              = Inl (SelectionParseError (trim reply))"
    using m [THEN conjunct1] unfolding match_selection_None_iff .
  show "(\<exists>pre p r. key_pair_at ''path='' ''name='' (trim reply) pre p r) \<longrightarrow>
            (\<exists>g1 g2. selection_parse (trim reply) g1 g2)"
  proof
    assume "\<exists>pre p r. key_pair_at ''path='' ''name='' (trim reply) pre p r"
    then have "match_selection (trim reply) \<noteq> None" unfolding match_selection_None_iff by simp
    then obtain g1 g2 where "match_selection (trim reply) = Some (g1, g2)" by auto
    then have "selection_parse (trim reply) g1 g2" unfolding match_selection_parse .
    then show "\<exists>g1 g2. selection_parse (trim reply) g1 g2" by (intro exI)
  qed
  show "\<forall>g1 g2. selection_parse (trim reply) g1 g2 \<longrightarrow>
            ((\<forall>info \<in> set allServerInfos. path info \<noteq> trim g1) \<longrightarrow>
               fst (selectServerScript e SERVER_CANDIDATES query w)
                 = Inl (UnknownBackendSelected (trim g1)))
          \<and> (\<forall>info. find (\<lambda>i. path i = trim g1) allServerInfos = Some info \<longrightarrow>
               ((\<forall>t \<in> set (tools info). name t \<noteq> trim g2) \<longrightarrow>
                  fst (selectServerScript e SERVER_CANDIDATES query w)
                    = Inl (UnknownToolSelected (trim g2)))
             \<and> (\<forall>t. find (\<lambda>t. name t = trim g2) (tools info) = Some t \<longrightarrow>
                  fst (selectServerScript e SERVER_CANDIDATES query w) = Inr (info, t)
                  \<and> info \<in> set allServerInfos \<and> path info = trim g1
                  \<and> t \<in> set (tools info) \<and> name t = trim g2))"
    using m [THEN conjunct2] unfolding match_selection_parse .
qed

lemma discover_weather:
  "discover (env_weather r a) [''/srv/down.js'', ''/srv/weather.js''] [] world0
   = ([\<lparr>path = ''/srv/weather.js'', tools = [get_weather], client = 0\<rparr>],
      \<lparr>next_handle = 1, open_conns = [0],
        launched = [(''node'', ''/srv/down.js''), (''node'', ''/srv/weather.js'')],
        tool_calls = []\<rparr>)"
  by (simp add: env_weather_def getServerTools_def start_client_def launch_command_def
      endsWith_def world0_def)

lemma match_selection_weather:
  "match_selection (trim '' path=/srv/weather.js, name=get_weather '')
     = Some (''/srv/weather.js'', ''get_weather'')"
  by code_simp

lemma trim_weather:
  "trim ''/srv/weather.js'' = ''/srv/weather.js''" "trim ''get_weather'' = ''get_weather''"
  by code_simp+

theorem selectServerScript_reply_outcomes_witness:
  "selection_parse (trim '' path=/srv/weather.js, name=get_weather '') ''/srv/weather.js'' ''get_weather''
   \<and> fst (selectServerScript (env_weather '' path=/srv/weather.js, name=get_weather '' ''name=get_weather, args={}'')
          [''/srv/down.js'', ''/srv/weather.js''] ''weather in Tokyo?'' world0)
     = Inr (\<lparr>path = ''/srv/weather.js'', tools = [get_weather], client = 0\<rparr>, get_weather)"
proof -
  let ?e = "env_weather '' path=/srv/weather.js, name=get_weather '' ''name=get_weather, args={}''"
  let ?infos = "[\<lparr>path = ''/srv/weather.js'', tools = [get_weather], client = 0\<rparr>]"
  have g: "generateContent ?e (SelectionPrompt ''weather in Tokyo?''
               (selection_toolListText (allTools ?infos)))
             = Some '' path=/srv/weather.js, name=get_weather ''"
    by (simp add: env_weather_def)
  have ne: "?infos \<noteq> []" by simp
  have sp: "selection_parse (trim '' path=/srv/weather.js, name=get_weather '')
              ''/srv/weather.js'' ''get_weather''"
    using match_selection_weather unfolding match_selection_parse .
  from selectServerScript_reply_outcomes [OF discover_weather ne g, THEN conjunct2, THEN conjunct2,
      THEN spec, THEN spec, THEN mp, OF sp]
  have "fst (selectServerScript ?e [''/srv/down.js'', ''/srv/weather.js''] ''weather in Tokyo?'' world0)
     = Inr (\<lparr>path = ''/srv/weather.js'', tools = [get_weather], client = 0\<rparr>, get_weather)"
    by (simp add: trim_weather get_weather_def)
  with sp show ?thesis by (rule conjI)
qed

text \<open>
  Claim C4, as stated, has the parse error surface the raw model text. The reply is trimmed
  before it is matched, and the error carries the trimmed text: on the reply
  \<open>" I cannot decide "\<close> it carries \<open>"I cannot decide"\<close>.
\<close>

theorem selectServerScript_raw_text_counterexample:
  "generateContent (env_weather '' I cannot decide '' ''name=get_weather, args={}'')
     (SelectionPrompt ''weather in Tokyo?''
        (selection_toolListText
           (allTools [\<lparr>path = ''/srv/weather.js'', tools = [get_weather], client = 0\<rparr>])))
     = Some '' I cannot decide ''
   \<and> fst (selectServerScript (env_weather '' I cannot decide '' ''name=get_weather, args={}'')
          [''/srv/down.js'', ''/srv/weather.js''] ''weather in Tokyo?'' world0)
     = Inl (SelectionParseError ''I cannot decide'')
   \<and> fst (selectServerScript (env_weather '' I cannot decide '' ''name=get_weather, args={}'')
          [''/srv/down.js'', ''/srv/weather.js''] ''weather in Tokyo?'' world0)
     \<noteq> Inl (SelectionParseError '' I cannot decide '')"
proof -
  let ?e = "env_weather '' I cannot decide '' ''name=get_weather, args={}''"
  have g: "generateContent ?e (SelectionPrompt ''weather in Tokyo?''
               (selection_toolListText
                  (allTools [\<lparr>path = ''/srv/weather.js'', tools = [get_weather], client = 0\<rparr>])))
             = Some '' I cannot decide ''"
    by (simp add: env_weather_def)
  have t: "trim '' I cannot decide '' = ''I cannot decide''" by code_simp
  have m: "match_selection ''I cannot decide'' = None" by code_simp
  have ne: "[\<lparr>path = ''/srv/weather.js'', tools = [get_weather], client = 0\<rparr>] \<noteq> []" by simp
  have s: "fst (selectServerScript ?e [''/srv/down.js'', ''/srv/weather.js''] ''weather in Tokyo?'' world0)
     = Inl (SelectionParseError ''I cannot decide'')"
    using selectServerScript_by_match [OF discover_weather ne g, THEN conjunct1] m
    unfolding t by simp
  have d: "''I cannot decide'' \<noteq> '' I cannot decide ''" by simp
  show ?thesis unfolding s using g d by simp
qed

subsection \<open>Connections left open by a selection\<close>

lemma open_conns_close_unselected:
  "open_conns (close_unselected sel infos w)
     = filter (\<lambda>h. \<forall>i \<in> set infos. path i \<noteq> sel \<longrightarrow> client i \<noteq> h) (open_conns w)"
proof (induction infos arbitrary: w)
  case Nil
  show ?case by simp
next
  case (Cons info infos)
  show ?case
    by (auto simp: Cons.IH removeAll_filter_not_eq intro: filter_cong)
qed

lemma map_fst_reachable: "map fst (reachable e cands) = filter (\<lambda>p. advertised e p \<noteq> None) cands"
  by (induction cands) (auto simp: reachable_def split: option.splits)

lemma filter_only_selected:
  assumes "distinct (map path new)" and "distinct (map client new)" and "s \<in> set new"
  shows "filter (\<lambda>h. \<forall>i \<in> set new. path i \<noteq> path s \<longrightarrow> client i \<noteq> h) (map client new) = [client s]"
proof -
  have inj_p: "inj_on path (set new)" and inj_c: "inj_on client (set new)"
    using assms by (simp_all add: distinct_map)
  have d: "distinct new" using assms(1) by (simp add: distinct_map)
  have "filter (\<lambda>j. \<forall>i \<in> set new. path i \<noteq> path s \<longrightarrow> client i \<noteq> client j) new
          = filter (\<lambda>j. j = s) new"
  proof (rule filter_cong [OF refl])
    fix j assume j: "j \<in> set new"
    show "(\<forall>i \<in> set new. path i \<noteq> path s \<longrightarrow> client i \<noteq> client j) = (j = s)"
    proof
      assume a: "\<forall>i \<in> set new. path i \<noteq> path s \<longrightarrow> client i \<noteq> client j"
      then have "path j = path s" using j by auto
      then show "j = s" using inj_p j assms(3) by (auto dest: inj_onD)
    next
      assume "j = s"
      then show "\<forall>i \<in> set new. path i \<noteq> path s \<longrightarrow> client i \<noteq> client j"
        using inj_c assms(3) by (auto dest: inj_onD)
    qed
  qed
  moreover have "filter (\<lambda>j. j = s) new = [s]"
    using d assms(3) by (induction new) (auto simp: filter_empty_conv)
  ultimately show ?thesis by (simp add: filter_map comp_def)
qed

text \<open>
  Without a \<open>listTools\<close> failure and with distinct candidates, the selected connection is
  the only one opened by the selector that is still open when it returns.
\<close>

lemma selectServerScript_success_one_open:
  assumes nolf: "\<forall>p \<in> set SERVER_CANDIDATES. backend e (launch_command e p) p \<noteq> ListToolsFails"
    and dist: "distinct SERVER_CANDIDATES"
    and wf: "\<forall>h \<in> set (open_conns w). h < next_handle w"
    and ok: "selectServerScript e SERVER_CANDIDATES query w = (Inr (server, t), w')"
  shows "open_conns w' = open_conns w @ [client server]"
proof -
  obtain infos w1 where dis: "discover e SERVER_CANDIDATES [] w = (infos, w1)"
    by (cases "discover e SERVER_CANDIDATES [] w")
  from discover_without_listTools_failure [OF nolf, of "[]" w] dis
  have oc: "open_conns w1 = open_conns w @ map client infos"
    and mp: "map path infos = map fst (reachable e SERVER_CANDIDATES)"
    and fresh: "\<forall>i \<in> set infos. next_handle w \<le> client i"
    and dc: "distinct (map client infos)"
    by auto
  have dp: "distinct (map path infos)" using dist by (simp add: mp map_fst_reachable)
  from ok dis obtain reply where
    v: "validate_selection infos (trim reply) = Inr (server, t)"
    and w': "w' = close_unselected (path server) infos w1"
    by (auto simp: selectServerScript_def split: if_splits option.splits sum.splits)
  from v have s: "server \<in> set infos"
    by (auto simp: validate_selection_def Let_def split: option.splits dest: find_SomeD)
  have old: "filter (\<lambda>h. \<forall>i \<in> set infos. path i \<noteq> path server \<longrightarrow> client i \<noteq> h) (open_conns w)
               = open_conns w"
    using wf fresh by (fastforce simp: filter_id_conv)
  show ?thesis
    by (simp add: w' open_conns_close_unselected oc old filter_only_selected [OF dp dc s])
qed

lemma best_server_one_open:
  assumes "\<forall>p \<in> set cands. backend e (launch_command e p) p \<noteq> ListToolsFails"
    and "open_conns w = base @ (case best of None \<Rightarrow> [] | Some b \<Rightarrow> [client b])"
    and "\<forall>h \<in> set (open_conns w). h < next_handle w"
    and "distinct (open_conns w)"
  shows "open_conns (snd (best_server e query cands bestScore best w))
           = base @ (case fst (best_server e query cands bestScore best w) of
                       None \<Rightarrow> [] | Some b \<Rightarrow> [client b])"
  using assms
proof (induction cands arbitrary: bestScore best w)
  case Nil
  then show ?case by simp
next
  case (Cons p ps)
  then have ps: "\<forall>p \<in> set ps. backend e (launch_command e p) p \<noteq> ListToolsFails" by simp
  show ?case
  proof (cases "backend e (launch_command e p) p")
    case SpawnFails
    let ?w1 = "w\<lparr>launched := launched w @ [(launch_command e p, p)]\<rparr>"
    have g: "getServerTools e p w = (Inl ConnectionError, ?w1)"
      using SpawnFails by (simp add: getServerTools_def start_client_def Let_def)
    from Cons.IH [OF ps, of ?w1 best bestScore] Cons.prems show ?thesis by (simp add: g)
  next
    case ListToolsFails
    then show ?thesis using Cons.prems by simp
  next
    case (Advertises ts)
    let ?h = "next_handle w"
    let ?w1 = "w\<lparr>launched := launched w @ [(launch_command e p, p)],
                  next_handle := Suc (next_handle w), open_conns := open_conns w @ [next_handle w]\<rparr>"
    let ?info = "\<lparr>path = p, tools = ts, client = ?h\<rparr>"
    have g: "getServerTools e p w = (Inr (ts, ?h), ?w1)"
      using Advertises by (simp add: getServerTools_def start_client_def Let_def)
    have hfresh: "?h \<notin> set (open_conns w)" using Cons.prems(3) by auto
    show ?thesis
    proof (cases "score query ts > bestScore")
      case False
      have oc: "open_conns (close ?h ?w1) = open_conns w" using hfresh by simp
      have 1: "open_conns (close ?h ?w1) = base @ (case best of None \<Rightarrow> [] | Some b \<Rightarrow> [client b])"
        using Cons.prems(2) oc by simp
      have 2: "\<forall>h \<in> set (open_conns (close ?h ?w1)). h < next_handle (close ?h ?w1)"
        unfolding oc using Cons.prems(3) by (auto simp: less_Suc_eq)
      have 3: "distinct (open_conns (close ?h ?w1))" unfolding oc by (rule Cons.prems(4))
      from Cons.IH [OF ps 1 2 3, of bestScore] False show ?thesis by (simp add: g)
    next
      case True
      let ?w2 = "case best of None \<Rightarrow> ?w1 | Some b \<Rightarrow> close (client b) ?w1"
      have nb: "?h \<notin> set base" using hfresh Cons.prems(2) by simp
      have oc: "open_conns ?w2 = base @ [?h]"
      proof (cases best)
        case None
        then show ?thesis using Cons.prems(2) by simp
      next
        case (Some b)
        then have ocw: "open_conns w = base @ [client b]" using Cons.prems(2) by simp
        then have "client b \<noteq> ?h" "client b \<notin> set base" using hfresh Cons.prems(4) by auto
        then show ?thesis using Some ocw by simp
      qed
      have nh: "next_handle ?w2 = Suc ?h" by (cases best) simp_all
      have 1: "open_conns ?w2 = base @ (case Some ?info of None \<Rightarrow> [] | Some b \<Rightarrow> [client b])"
        using oc by simp
      have sub: "set base \<subseteq> set (open_conns w)" using Cons.prems(2) by auto
      have 2: "\<forall>h \<in> set (open_conns ?w2). h < next_handle ?w2"
        unfolding oc nh using Cons.prems(3) sub by (auto simp: less_Suc_eq)
      have 3: "distinct (open_conns ?w2)"
        unfolding oc using Cons.prems(2,4) nb by simp
      from Cons.IH [OF ps 1 2 3, of "score query ts"] True show ?thesis by (simp add: g)
    qed
  qed
qed

lemma selectServerScript_by_score_success_one_open:
  assumes "\<forall>p \<in> set SERVER_CANDIDATES. backend e (launch_command e p) p \<noteq> ListToolsFails"
    and "selectServerScript_by_score e SERVER_CANDIDATES query world0 = (Inr best, w')"
  shows "open_conns w' = [client best]"
proof -
  have "open_conns (snd (best_server e query SERVER_CANDIDATES (- 1) None world0))
           = [] @ (case fst (best_server e query SERVER_CANDIDATES (- 1) None world0) of
                       None \<Rightarrow> [] | Some b \<Rightarrow> [client b])"
    by (rule best_server_one_open [OF assms(1)]) (simp_all add: world0_def)
  then show ?thesis using assms(2)
    by (auto simp: selectServerScript_by_score_def split: prod.splits option.splits)
qed

text \<open>
  Claim C2. After a successful selection exactly one connection is to be open. A candidate
  whose \<open>listTools\<close> fails after connecting is never closed: with such a candidate before
  the selected one, two connections are open when the selector returns, from the selector
  that asks the model and from the selector that scores by containment alike.
\<close>

theorem selectServerScript_leaves_two_open:
  "selectServerScript
      (env_weather ''path=/srv/weather.js, name=get_weather'' ''name=get_weather, args={}'')
      [''/srv/stuck.js'', ''/srv/weather.js''] ''weather in Tokyo?'' world0
     = (Inr (\<lparr>path = ''/srv/weather.js'', tools = [get_weather], client = 1\<rparr>, get_weather),
        \<lparr>next_handle = 2, open_conns = [0, 1],
          launched = [(''node'', ''/srv/stuck.js''), (''node'', ''/srv/weather.js'')],
          tool_calls = []\<rparr>)
   \<and> selectServerScript_by_score
      (env_weather ''path=/srv/weather.js, name=get_weather'' ''name=get_weather, args={}'')
      [''/srv/stuck.js'', ''/srv/weather.js''] ''get_weather in Tokyo'' world0
     = (Inr \<lparr>path = ''/srv/weather.js'', tools = [get_weather], client = 1\<rparr>,
        \<lparr>next_handle = 2, open_conns = [0, 1],
          launched = [(''node'', ''/srv/stuck.js''), (''node'', ''/srv/weather.js'')],
          tool_calls = []\<rparr>)"
  by code_simp

section \<open>Properties: native tool calling\<close>

lemma process_blocks_text_only:
  "process_blocks e mcp (map TextBlock texts) finalText messages w = (Inr (finalText @ texts), w)"
  by (induction texts arbitrary: finalText) simp_all

text \<open>
  Claim C7. In native mode, when the model's response consists of text blocks only, the
  answer is their text (joined by newlines, so the text itself when there is one block) and
  the world is left as it was: no \<open>callTool\<close> request is sent.
\<close>

theorem processQuery_native_plain_text:
  assumes "messagesCreate e [JStr query] ts = Some (map TextBlock texts)"
  shows "processQuery_native e mcp ts query w = (Inr (join [CHR 0x0A] texts), w)"
  using assms by (simp add: processQuery_native_def process_blocks_text_only)

theorem processQuery_native_plain_text_witness:
  "processQuery_native (env_weather ''path=/srv/weather.js, name=get_weather'' ''name=get_weather, args={}'') 0
       [get_weather] ''weather in Tokyo?'' world0
     = (Inr ''It is sunny.'', world0)"
  using processQuery_native_plain_text
          [of "env_weather ''path=/srv/weather.js, name=get_weather'' ''name=get_weather, args={}''"
              "''weather in Tokyo?''" "[get_weather]" "[''It is sunny.'']" 0 world0]
  by (simp add: env_weather_def)

section \<open>Properties: \<open>JSON.parse\<close> after \<open>JSON.stringify\<close>\<close>

lemma digit_char_digit: "d < 10 \<Longrightarrow> is_digit (digit_char d) \<and> digit_val (digit_char d) = d"
  by (auto simp: eval_nat_numeral less_Suc_eq digit_char_def is_digit_def digit_val_def)

lemma hex_val_digit_char: "d < 16 \<Longrightarrow> hex_val (digit_char d) = Some d"
  by (auto simp: eval_nat_numeral less_Suc_eq digit_char_def hex_val_def)

lemma show_nat_digits: "list_all is_digit (show_nat n)"
  by (induction n rule: show_nat.induct) (subst show_nat.simps, simp add: digit_char_digit)

lemma show_nat_nonempty: "show_nat n \<noteq> []"
  by (subst show_nat.simps) simp

lemma show_nat_value: "foldl (\<lambda>a c. 10 * a + digit_val c) 0 (show_nat n) = n"
  by (induction n rule: show_nat.induct) (subst show_nat.simps, simp add: digit_char_digit)

lemma digit_char_zero: "d < 10 \<Longrightarrow> digit_char d = CHR ''0'' \<longleftrightarrow> d = 0"
  by (auto simp: eval_nat_numeral less_Suc_eq digit_char_def)

lemma show_nat_hd: "0 < n \<Longrightarrow> hd (show_nat n) \<noteq> CHR ''0''"
proof (induction n rule: show_nat.induct)
  case (1 n)
  show ?case
  proof (cases "n < 10")
    case True
    with 1 show ?thesis by (subst show_nat.simps) (simp add: digit_char_zero)
  next
    case False
    then have "0 < n div 10" by simp
    with 1 False show ?thesis
      by (subst show_nat.simps) (simp add: show_nat_nonempty)
  qed
qed

lemma parse_digits_run:
  "list_all is_digit ds \<Longrightarrow> number_stop rest \<Longrightarrow>
     parse_digits acc (ds @ rest) = (foldl (\<lambda>a c. 10 * a + digit_val c) acc ds, rest)"
  by (induction ds arbitrary: acc) (auto simp: number_stop_def split: list.splits)

lemma parse_unsigned_show_nat:
  assumes "number_stop rest"
  shows "parse_unsigned (show_nat n @ rest) = Some (n, rest)"
proof -
  obtain c r where cr: "show_nat n = c # r" using show_nat_nonempty by (cases "show_nat n") auto
  have dig: "is_digit c" using show_nat_digits [of n] cr by simp
  show ?thesis
  proof (cases "n = 0")
    case True
    then have "show_nat n = ''0''" by (subst show_nat.simps) (simp add: digit_char_def)
    then show ?thesis using assms True
      by (auto simp: parse_unsigned_def is_digit_def number_stop_def split: list.splits)
  next
    case False
    then have nz: "c \<noteq> CHR ''0''" using show_nat_hd [of n] cr by simp
    have "parse_digits 0 (show_nat n @ rest) = (n, rest)"
      using parse_digits_run [where ds = "show_nat n" and acc = 0, OF show_nat_digits assms]
      by (simp add: show_nat_value)
    then have "parse_digits 0 (c # r @ rest) = (n, rest)" using cr by simp
    then show ?thesis using assms dig nz cr
      by (simp add: parse_unsigned_def number_stop_def split: list.splits)
  qed
qed

lemma parse_number_show_int:
  assumes "number_stop rest"
  shows "parse_number (show_int n @ rest) = Some (JNum n, rest)"
proof (cases "n < 0")
  case False
  obtain c r where cr: "show_nat (nat n) = c # r"
    using show_nat_nonempty by (cases "show_nat (nat n)") auto
  have "is_digit c" using show_nat_digits [of "nat n"] cr by simp
  then have "c \<noteq> CHR ''-''" by (auto simp: is_digit_def)
  moreover have "parse_unsigned (c # r @ rest) = Some (nat n, rest)"
    using parse_unsigned_show_nat [OF assms, of "nat n"] cr by simp
  ultimately show ?thesis using False cr by (simp add: show_int_def parse_number_def)
next
  case True
  then show ?thesis
    using parse_unsigned_show_nat [OF assms, of "nat (- n)"]
    by (simp add: show_int_def parse_number_def)
qed

lemma hex_val_zero: "hex_val CHR ''0'' = Some 0"
  by (simp add: hex_val_def)

lemma parse_escape2:
  "unescape e = Some c \<Longrightarrow> e \<noteq> CHR ''u'' \<Longrightarrow>
   parse_string_chars (CHR 0x5C # e # t) = map_option (apfst ((#) c)) (parse_string_chars t)"
  by simp

lemma parse_escape_u:
  "hex4 h1 h2 h3 h4 = Some n \<Longrightarrow> n < 256 \<Longrightarrow>
   parse_string_chars (CHR 0x5C # CHR ''u'' # h1 # h2 # h3 # h4 # t)
     = map_option (apfst ((#) (char_of n))) (parse_string_chars t)"
  by simp

lemma parse_plain:
  "c \<noteq> CHR 0x22 \<Longrightarrow> c \<noteq> CHR 0x5C \<Longrightarrow> \<not> (of_char c :: nat) < 32 \<Longrightarrow>
   parse_string_chars (c # t) = map_option (apfst ((#) c)) (parse_string_chars t)"
  by simp

lemma quote_char_cases:
  "(\<exists>e. quote_char c = [CHR 0x5C, e] \<and> unescape e = Some c \<and> e \<noteq> CHR ''u'')
   \<or> (quote_char c = [CHR 0x5C, CHR ''u'', CHR ''0'', CHR ''0'',
                  digit_char (of_char c div 16), digit_char (of_char c mod 16)]
       \<and> (of_char c :: nat) < 32)
   \<or> (quote_char c = [c] \<and> c \<noteq> CHR 0x22 \<and> c \<noteq> CHR 0x5C \<and> \<not> (of_char c :: nat) < 32)"
  by (simp add: quote_char_def unescape_def)

lemma parse_string_chars_quote_char:
  "parse_string_chars (quote_char c @ t) = map_option (apfst ((#) c)) (parse_string_chars t)"
proof -
  consider (esc) e where "quote_char c = [CHR 0x5C, e]" "unescape e = Some c" "e \<noteq> CHR ''u''"
    | (uni) "quote_char c = [CHR 0x5C, CHR ''u'', CHR ''0'', CHR ''0'',
                  digit_char (of_char c div 16), digit_char (of_char c mod 16)]"
            "(of_char c :: nat) < 32"
    | (plain) "quote_char c = [c]" "c \<noteq> CHR 0x22" "c \<noteq> CHR 0x5C" "\<not> (of_char c :: nat) < 32"
    using quote_char_cases [of c] by blast
  then show ?thesis
  proof cases
    case esc
    then show ?thesis using parse_escape2 [OF esc(2,3)] by (simp del: parse_string_chars.simps)
  next
    case uni
    have "hex4 CHR ''0'' CHR ''0'' (digit_char (of_char c div 16)) (digit_char (of_char c mod 16))
          = Some (of_char c)"
      using uni(2) by (simp add: hex4_def hex_val_zero hex_val_digit_char)
    from parse_escape_u [OF this] uni show ?thesis by (simp del: parse_string_chars.simps)
  next
    case plain
    then show ?thesis using parse_plain [OF plain(2,3,4)] by (simp del: parse_string_chars.simps)
  qed
qed

lemma parse_string_chars_quoted:
  "parse_string_chars (concat (map quote_char s) @ CHR 0x22 # rest) = Some (s, rest)"
proof (induction s)
  case Nil
  show ?case by simp
next
  case (Cons c s)
  have "parse_string_chars (quote_char c @ (concat (map quote_char s) @ CHR 0x22 # rest))
          = Some (c # s, rest)"
    by (simp only: parse_string_chars_quote_char Cons.IH) simp
  then show ?case by simp
qed

lemma CreateDataProperties_distinct:
  assumes "distinct (map fst ms)"
  shows "CreateDataProperties ms = ms"
proof -
  have "distinct (map fst (ps @ ms)) \<Longrightarrow>
        foldl (\<lambda>ps m. AList.update (fst m) (snd m) ps) ps ms = ps @ ms" for ps
  proof (induction ms arbitrary: ps)
    case Nil
    then show ?case by simp
  next
    case (Cons m ms)
    have "fst m \<notin> fst ` set ps" using Cons.prems by auto
    then have "AList.update (fst m) (snd m) ps = ps @ [m]"
      by (induction ps) auto
    then show ?case using Cons.IH [of "ps @ [m]"] Cons.prems by simp
  qed
  from this [of "[]"] assms show ?thesis by (simp add: CreateDataProperties_def)
qed

lemma join_Cons: "ys \<noteq> [] \<Longrightarrow> join sep (x # ys) = x @ sep @ join sep ys"
  by (cases ys) simp_all

lemma ser_JArr:
  "xs \<noteq> [] \<Longrightarrow> SerializeJSONProperty gap ind (JArr xs) =
     CHR ''['' # nl_indent gap (ind @ gap)
       @ join (CHR '','' # nl_indent gap (ind @ gap)) (map (SerializeJSONProperty gap (ind @ gap)) xs)
       @ nl_indent gap ind @ '']''"
  by (simp add: nl_indent_def Let_def)

lemma ser_JObj:
  "ps \<noteq> [] \<Longrightarrow> SerializeJSONProperty gap ind (JObj ps) =
     CHR ''{'' # nl_indent gap (ind @ gap)
       @ join (CHR '','' # nl_indent gap (ind @ gap))
           (map (\<lambda>p. QuoteJSONString (fst p) @ CHR '':'' # colon_space gap
                       @ SerializeJSONProperty gap (ind @ gap) (snd p)) ps)
       @ nl_indent gap ind @ ''}''"
  by (simp add: nl_indent_def colon_space_def Let_def)

lemma ser_empty:
  "SerializeJSONProperty gap ind (JArr []) = ''[]''"
  "SerializeJSONProperty gap ind (JObj []) = ''{}''"
  by simp_all

lemma skip_ws_append: "list_all is_json_ws a \<Longrightarrow> skip_ws (a @ s) = skip_ws s"
  by (induction a) (simp_all add: skip_ws_def)

lemma skip_ws_starts: "starts_value s \<Longrightarrow> skip_ws s = s"
  by (cases s) (simp_all add: starts_value_def skip_ws_def)

lemma nl_indent_ws: "list_all is_json_ws ind \<Longrightarrow> list_all is_json_ws (nl_indent gap ind)"
  by (simp add: nl_indent_def is_json_ws_def)

lemma colon_space_ws: "list_all is_json_ws (colon_space gap)"
  by (simp add: colon_space_def is_json_ws_def)

lemma show_int_starts: "\<exists>c r. show_int n = c # r \<and> (is_digit c \<or> c = CHR ''-'')"
proof -
  obtain c r where "show_nat (nat \<bar>n\<bar>) = c # r" "is_digit c"
    using show_nat_nonempty [of "nat \<bar>n\<bar>"] show_nat_digits [of "nat \<bar>n\<bar>"]
    by (cases "show_nat (nat \<bar>n\<bar>)") auto
  then show ?thesis by (cases "n < 0") (auto simp: show_int_def abs_if split: if_splits)
qed

lemma ser_starts: "starts_value (SerializeJSONProperty gap ind v @ rest)"
proof (cases v)
  case (JNum n)
  from show_int_starts [of n] obtain c r where "show_int n = c # r" "is_digit c \<or> c = CHR ''-''"
    by blast
  then show ?thesis using JNum by (auto simp: starts_value_def is_json_ws_def is_digit_def)
next
  case (JArr xs)
  then show ?thesis by (cases "xs = []") (simp_all add: ser_JArr ser_empty starts_value_def is_json_ws_def del: SerializeJSONProperty.simps)
next
  case (JObj ps)
  then show ?thesis by (cases "ps = []") (simp_all add: ser_JObj ser_empty starts_value_def is_json_ws_def del: SerializeJSONProperty.simps)
qed (simp_all add: starts_value_def is_json_ws_def QuoteJSONString_def)

lemma number_stop_after_ws:
  "list_all is_json_ws B \<Longrightarrow> \<not> is_digit c \<Longrightarrow> c \<noteq> CHR ''.'' \<Longrightarrow> c \<noteq> CHR ''e'' \<Longrightarrow> c \<noteq> CHR ''E''
   \<Longrightarrow> number_stop (B @ c # rest)"
  by (cases B) (auto simp: number_stop_def is_json_ws_def is_digit_def)

lemma skip_ws_to: "list_all is_json_ws B \<Longrightarrow> \<not> is_json_ws c \<Longrightarrow> skip_ws (B @ c # rest) = c # rest"
  by (simp add: skip_ws_append) (simp add: skip_ws_def)

lemma comma_facts:
  "\<not> is_digit CHR '',''" "\<not> is_json_ws CHR '',''"
  "\<not> is_digit CHR '']''" "\<not> is_json_ws CHR '']''"
  "\<not> is_digit CHR ''}''" "\<not> is_json_ws CHR ''}''"
  "\<not> is_json_ws CHR '':''"
  by (simp_all add: is_digit_def is_json_ws_def)

lemma parse_elements_join:
  assumes IH: "\<And>x rest f. x \<in> set xs \<Longrightarrow> number_stop rest \<Longrightarrow> length (S x) \<le> f
                 \<Longrightarrow> parse_value (Suc f) (S x @ rest) = Some (x, rest)"
    and st: "\<And>x rest. starts_value (S x @ rest)"
    and A: "list_all is_json_ws A" and B: "list_all is_json_ws B"
    and ne: "xs \<noteq> []"
    and fuel: "length (join (CHR '','' # A) (map S xs)) < f"
  shows "parse_elements f (join (CHR '','' # A) (map S xs) @ B @ CHR '']'' # rest) = Some (xs, rest)"
  using ne IH fuel
proof (induction xs arbitrary: f rule: list_nonempty_induct)
  case (single x)
  from single(2) obtain n where f: "f = Suc n" and n: "length (S x) \<le> n" by (cases f) auto
  have ns: "number_stop (B @ CHR '']'' # rest)"
    by (rule number_stop_after_ws [OF B]) (simp_all add: comma_facts)
  have pv: "parse_value (Suc n) (S x @ B @ CHR '']'' # rest) = Some (x, B @ CHR '']'' # rest)"
    using single(1) [of x "B @ CHR '']'' # rest" n] ns n by simp
  show ?case
    by (simp add: f pv skip_ws_to [OF B] comma_facts del: parse_value.simps)
next
  case (cons x xs)
  let ?J = "join (CHR '','' # A) (map S xs)"
  have j: "join (CHR '','' # A) (map S (x # xs)) = S x @ CHR '','' # A @ ?J"
    using cons(1) by (simp add: join_Cons)
  from cons(4) j obtain n where f: "f = Suc n" and n: "length (S x) \<le> n" and n': "length ?J < n"
    by (cases f) auto
  have ns: "number_stop ([] @ CHR '','' # A @ ?J @ B @ CHR '']'' # rest)"
    by (rule number_stop_after_ws) (simp_all add: comma_facts)
  have pv: "parse_value (Suc n) (S x @ CHR '','' # A @ ?J @ B @ CHR '']'' # rest)
              = Some (x, CHR '','' # A @ ?J @ B @ CHR '']'' # rest)"
    using cons(3) [of x "CHR '','' # A @ ?J @ B @ CHR '']'' # rest" n] ns n by simp
  obtain y ys where xs: "xs = y # ys" using cons(1) by (cases xs) auto
  have "starts_value (?J @ B @ CHR '']'' # rest)"
    using st [of y] by (cases ys) (simp_all add: xs)
  then have sk: "skip_ws (A @ ?J @ B @ CHR '']'' # rest) = ?J @ B @ CHR '']'' # rest"
    by (simp add: skip_ws_append [OF A] skip_ws_starts)
  have rec: "parse_elements n (?J @ B @ CHR '']'' # rest) = Some (xs, rest)"
    using cons(2) [of n] cons(3) n' by simp
  have sk0: "skip_ws (CHR '','' # A @ ?J @ B @ CHR '']'' # rest) = CHR '','' # A @ ?J @ B @ CHR '']'' # rest"
    using skip_ws_to [of "[]"] by (simp add: comma_facts)
  have "parse_elements (Suc n) (S x @ CHR '','' # A @ ?J @ B @ CHR '']'' # rest) = Some (x # xs, rest)"
    by (simp add: pv sk0 sk rec del: parse_value.simps)
  then show ?case using j f by simp
qed

lemma parse_member_one:
  assumes pv: "parse_value (Suc n) (S v @ rst) = Some (v, rst)"
    and st: "starts_value (S v @ rst)"
    and C: "list_all is_json_ws C"
  shows "parse_members (Suc n) (QuoteJSONString k @ CHR '':'' # C @ S v @ rst) =
           (case skip_ws rst of
              [] \<Rightarrow> None
            | c' # r4 \<Rightarrow>
                if c' = CHR '','' then map_option (apfst ((#) (k, v))) (parse_members n (skip_ws r4))
                else if c' = CHR ''}'' then Some ([(k, v)], r4)
                else None)"
proof -
  have q: "parse_string_chars (concat (map quote_char k) @ CHR 0x22 # CHR '':'' # C @ S v @ rst)
             = Some (k, CHR '':'' # C @ S v @ rst)"
    by (rule parse_string_chars_quoted)
  have sk1: "skip_ws (CHR '':'' # C @ S v @ rst) = CHR '':'' # C @ S v @ rst"
    using skip_ws_to [of "[]"] by (simp add: comma_facts)
  have sk2: "skip_ws (C @ S v @ rst) = S v @ rst"
    by (simp add: skip_ws_append [OF C] skip_ws_starts [OF st])
  show ?thesis
    by (simp add: QuoteJSONString_def q sk1 sk2 pv del: parse_value.simps parse_string_chars.simps)
qed

lemma parse_members_join:
  assumes IH: "\<And>p rest f. p \<in> set ps \<Longrightarrow> number_stop rest \<Longrightarrow> length (S (snd p)) \<le> f
                 \<Longrightarrow> parse_value (Suc f) (S (snd p) @ rest) = Some (snd p, rest)"
    and st: "\<And>x rest. starts_value (S x @ rest)"
    and A: "list_all is_json_ws A" and B: "list_all is_json_ws B" and C: "list_all is_json_ws C"
    and ne: "ps \<noteq> []"
    and fuel: "length (join (CHR '','' # A)
                 (map (\<lambda>p. QuoteJSONString (fst p) @ CHR '':'' # C @ S (snd p)) ps)) < f"
  shows "parse_members f (join (CHR '','' # A)
                 (map (\<lambda>p. QuoteJSONString (fst p) @ CHR '':'' # C @ S (snd p)) ps)
               @ B @ CHR ''}'' # rest) = Some (ps, rest)"
  using ne IH fuel
proof (induction ps arbitrary: f rule: list_nonempty_induct)
  case (single p)
  let ?M = "\<lambda>p. QuoteJSONString (fst p) @ CHR '':'' # C @ S (snd p)"
  from single(2) obtain n where f: "f = Suc n" and n: "length (S (snd p)) \<le> n"
    by (cases f) auto
  have ns: "number_stop (B @ CHR ''}'' # rest)"
    by (rule number_stop_after_ws [OF B]) (simp_all add: comma_facts)
  have pv: "parse_value (Suc n) (S (snd p) @ B @ CHR ''}'' # rest) = Some (snd p, B @ CHR ''}'' # rest)"
    using single(1) [of p "B @ CHR ''}'' # rest" n] ns n by simp
  have "parse_members (Suc n) (QuoteJSONString (fst p) @ CHR '':'' # C @ S (snd p) @ B @ CHR ''}'' # rest)
          = Some ([p], rest)"
    by (subst parse_member_one [where S = S and v = "snd p" and rst = "B @ CHR ''}'' # rest", OF pv st C])
       (simp add: skip_ws_to [OF B] comma_facts)
  then show ?case using f by simp
next
  case (cons p ps)
  let ?M = "\<lambda>p. QuoteJSONString (fst p) @ CHR '':'' # C @ S (snd p)"
  let ?J = "join (CHR '','' # A) (map ?M ps)"
  have j: "join (CHR '','' # A) (map ?M (p # ps)) = ?M p @ CHR '','' # A @ ?J"
    using cons(1) by (simp add: join_Cons)
  from cons(4) j obtain n where f: "f = Suc n" and n: "length (S (snd p)) \<le> n" and n': "length ?J < n"
    by (cases f) auto
  have ns: "number_stop ([] @ CHR '','' # A @ ?J @ B @ CHR ''}'' # rest)"
    by (rule number_stop_after_ws) (simp_all add: comma_facts)
  have pv: "parse_value (Suc n) (S (snd p) @ CHR '','' # A @ ?J @ B @ CHR ''}'' # rest)
              = Some (snd p, CHR '','' # A @ ?J @ B @ CHR ''}'' # rest)"
    using cons(3) [of p "CHR '','' # A @ ?J @ B @ CHR ''}'' # rest" n] ns n by simp
  obtain q qs where ps: "ps = q # qs" using cons(1) by (cases ps) auto
  have "starts_value (?J @ B @ CHR ''}'' # rest)"
    by (cases qs) (simp_all add: ps starts_value_def QuoteJSONString_def is_json_ws_def)
  then have sk: "skip_ws (A @ ?J @ B @ CHR ''}'' # rest) = ?J @ B @ CHR ''}'' # rest"
    by (simp add: skip_ws_append [OF A] skip_ws_starts)
  have rec: "parse_members n (?J @ B @ CHR ''}'' # rest) = Some (ps, rest)"
    using cons(2) [of n] cons(3) n' by simp
  have sk0: "skip_ws (CHR '','' # A @ ?J @ B @ CHR ''}'' # rest) = CHR '','' # A @ ?J @ B @ CHR ''}'' # rest"
    using skip_ws_to [of "[]"] by (simp add: comma_facts)
  have "parse_members (Suc n) (QuoteJSONString (fst p) @ CHR '':'' # C @ S (snd p)
            @ CHR '','' # A @ ?J @ B @ CHR ''}'' # rest) = Some (p # ps, rest)"
    by (subst parse_member_one [where S = S and v = "snd p"
            and rst = "CHR '','' # A @ ?J @ B @ CHR ''}'' # rest", OF pv st C])
       (simp add: sk0 sk rec)
  then show ?case using j f by simp
qed

lemma parse_value_atom:
  "parse_value (Suc f) (''null'' @ rest) = Some (JNull, rest)"
  "parse_value (Suc f) (''true'' @ rest) = Some (JBool True, rest)"
  "parse_value (Suc f) (''false'' @ rest) = Some (JBool False, rest)"
  by simp_all

lemma parse_value_str: "parse_value (Suc f) (QuoteJSONString s @ rest) = Some (JStr s, rest)"
  by (simp add: QuoteJSONString_def parse_string_chars_quoted del: parse_string_chars.simps)

lemma digit_or_minus_not_special:
  "is_digit c \<or> c = CHR ''-'' \<Longrightarrow>
     c \<noteq> CHR ''['' \<and> c \<noteq> CHR ''{'' \<and> c \<noteq> CHR 0x22 \<and> c \<noteq> CHR ''t'' \<and> c \<noteq> CHR ''f'' \<and> c \<noteq> CHR ''n''"
  by (auto simp: is_digit_def)

lemma parse_value_dispatch:
  "c \<noteq> CHR ''['' \<Longrightarrow> c \<noteq> CHR ''{'' \<Longrightarrow> c \<noteq> CHR 0x22 \<Longrightarrow> c \<noteq> CHR ''t'' \<Longrightarrow> c \<noteq> CHR ''f'' \<Longrightarrow> c \<noteq> CHR ''n''
   \<Longrightarrow> parse_value (Suc f) (c # r) = parse_number (c # r)"
  by simp

lemma parse_value_number:
  assumes "number_stop rest"
  shows "parse_value (Suc f) (show_int n @ rest) = Some (JNum n, rest)"
proof -
  from show_int_starts [of n] obtain c r where cr: "show_int n = c # r" "is_digit c \<or> c = CHR ''-''"
    by blast
  have "parse_value (Suc f) (c # r @ rest) = parse_number (c # r @ rest)"
    using digit_or_minus_not_special [OF cr(2)] by (intro parse_value_dispatch) simp_all
  then show ?thesis using parse_number_show_int [OF assms, of n] cr(1) by (simp del: parse_value.simps)
qed

lemma parse_value_ser:
  "list_all is_json_ws gap \<Longrightarrow> list_all is_json_ws ind \<Longrightarrow> json_wf v \<Longrightarrow> number_stop rest
   \<Longrightarrow> length (SerializeJSONProperty gap ind v) \<le> f
   \<Longrightarrow> parse_value (Suc f) (SerializeJSONProperty gap ind v @ rest) = Some (v, rest)"
proof (induction v arbitrary: ind rest f)
  case JNull
  show ?case using parse_value_atom(1) by (simp del: parse_value.simps)
next
  case (JBool b)
  show ?case using parse_value_atom(2,3) by (cases b) (simp_all del: parse_value.simps)
next
  case (JNum n)
  then show ?case by (simp add: parse_value_number del: parse_value.simps json_wf.simps)
next
  case (JStr s)
  show ?case by (simp add: parse_value_str del: parse_value.simps)
next
  case (JArr xs)
  show ?case
  proof (cases "xs = []")
    case True
    have "parse_value (Suc f) (''[]'' @ rest) = Some (JArr [], rest)"
      by (simp add: skip_ws_def is_json_ws_def)
    then show ?thesis using True by (simp only: ser_empty)
  next
    case False
    let ?ind = "ind @ gap"
    let ?A = "nl_indent gap ?ind" and ?B = "nl_indent gap ind"
    let ?S = "SerializeJSONProperty gap ?ind"
    let ?J = "join (CHR '','' # ?A) (map ?S xs)"
    have wsind: "list_all is_json_ws ?ind" using JArr.prems by simp
    have A: "list_all is_json_ws ?A" and B: "list_all is_json_ws ?B"
      using JArr.prems wsind by (simp_all add: nl_indent_ws)
    have ser: "SerializeJSONProperty gap ind (JArr xs) = CHR ''['' # ?A @ ?J @ ?B @ '']''"
      using False by (rule ser_JArr)
    from JArr.prems(5) ser obtain n where f: "f = Suc n" and n: "length ?J < Suc n"
      by (cases f) auto
    have IH: "\<And>x rest f. x \<in> set xs \<Longrightarrow> number_stop rest \<Longrightarrow> length (?S x) \<le> f
                 \<Longrightarrow> parse_value (Suc f) (?S x @ rest) = Some (x, rest)"
      using JArr.IH JArr.prems(1,3) wsind by simp
    have pe: "parse_elements (Suc n) (?J @ ?B @ CHR '']'' # rest) = Some (xs, rest)"
      by (rule parse_elements_join [OF IH ser_starts A B False n])
    obtain y ys where xs: "xs = y # ys" using False by (cases xs) auto
    have stJ: "starts_value (?J @ ?B @ CHR '']'' # rest)"
      using ser_starts [of gap ?ind y] by (cases ys) (simp_all add: xs del: SerializeJSONProperty.simps)
    then obtain c1 r1 where c1: "?J @ ?B @ CHR '']'' # rest = c1 # r1" "c1 \<noteq> CHR '']''"
      by (cases "?J @ ?B @ CHR '']'' # rest") (auto simp: starts_value_def)
    have sk: "skip_ws (?A @ ?J @ ?B @ CHR '']'' # rest) = c1 # r1"
      using stJ c1 by (simp add: skip_ws_append [OF A] skip_ws_starts)
    have "parse_value (Suc (Suc n)) (CHR ''['' # ?A @ ?J @ ?B @ CHR '']'' # rest) = Some (JArr xs, rest)"
      using pe c1 sk by (simp del: parse_elements.simps)
    then show ?thesis using ser f by (simp del: parse_value.simps SerializeJSONProperty.simps)
  qed
next
  case (JObj ps)
  show ?case
  proof (cases "ps = []")
    case True
    have "parse_value (Suc f) (''{}'' @ rest) = Some (JObj [], rest)"
      by (simp add: skip_ws_def is_json_ws_def)
    then show ?thesis using True by (simp only: ser_empty)
  next
    case False
    let ?ind = "ind @ gap"
    let ?A = "nl_indent gap ?ind" and ?B = "nl_indent gap ind" and ?C = "colon_space gap"
    let ?S = "SerializeJSONProperty gap ?ind"
    let ?M = "\<lambda>p. QuoteJSONString (fst p) @ CHR '':'' # ?C @ ?S (snd p)"
    let ?J = "join (CHR '','' # ?A) (map ?M ps)"
    have wsind: "list_all is_json_ws ?ind" using JObj.prems by simp
    have A: "list_all is_json_ws ?A" and B: "list_all is_json_ws ?B"
      using JObj.prems wsind by (simp_all add: nl_indent_ws)
    have ser: "SerializeJSONProperty gap ind (JObj ps) = CHR ''{'' # ?A @ ?J @ ?B @ ''}''"
      using False by (rule ser_JObj)
    from JObj.prems(5) ser obtain n where f: "f = Suc n" and n: "length ?J < Suc n"
      by (cases f) auto
    have IH: "\<And>p rest f. p \<in> set ps \<Longrightarrow> number_stop rest \<Longrightarrow> length (?S (snd p)) \<le> f
                 \<Longrightarrow> parse_value (Suc f) (?S (snd p) @ rest) = Some (snd p, rest)"
    proof -
      fix p rest f
      assume p: "p \<in> set ps" and "number_stop rest" "length (?S (snd p)) \<le> f"
      moreover have "snd p \<in> Basic_BNFs.snds p" by (cases p) simp
      moreover have "json_wf (snd p)" using JObj.prems(3) p by simp
      ultimately show "parse_value (Suc f) (?S (snd p) @ rest) = Some (snd p, rest)"
        using JObj.IH [of p "snd p" ?ind rest f] JObj.prems(1) wsind by simp
    qed
    have pm: "parse_members (Suc n) (?J @ ?B @ CHR ''}'' # rest) = Some (ps, rest)"
      by (rule parse_members_join [OF IH ser_starts A B colon_space_ws False n])
    obtain q qs where ps: "ps = q # qs" using False by (cases ps) auto
    have stJ: "starts_value (?J @ ?B @ CHR ''}'' # rest)"
      by (cases qs) (simp_all add: ps starts_value_def QuoteJSONString_def is_json_ws_def
            del: SerializeJSONProperty.simps)
    then obtain c1 r1 where c1: "?J @ ?B @ CHR ''}'' # rest = c1 # r1" "c1 \<noteq> CHR ''}''"
      by (cases "?J @ ?B @ CHR ''}'' # rest") (auto simp: starts_value_def)
    have sk: "skip_ws (?A @ ?J @ ?B @ CHR ''}'' # rest) = c1 # r1"
      using stJ c1 by (simp add: skip_ws_append [OF A] skip_ws_starts)
    have d: "CreateDataProperties ps = ps"
      using JObj.prems(3) by (simp add: CreateDataProperties_distinct)
    have "parse_value (Suc (Suc n)) (CHR ''{'' # ?A @ ?J @ ?B @ CHR ''}'' # rest) = Some (JObj ps, rest)"
      using pm c1 sk d by (simp del: parse_members.simps)
    then show ?thesis using ser f by (simp del: parse_value.simps SerializeJSONProperty.simps)
  qed
qed

text \<open>
  Parsing the serialization of a value gives the value back, with or without indentation.
\<close>

lemma JSON_parse_stringify:
  assumes "json_wf v"
  shows "JSON_parse (JSON_stringify v space) = Some v"
proof -
  let ?gap = "replicate (min 10 space) CHR '' ''"
  have g: "list_all is_json_ws ?gap" by (simp add: list_all_iff is_json_ws_def)
  have "parse_value (Suc (length (SerializeJSONProperty ?gap [] v))) (SerializeJSONProperty ?gap [] v @ [])
          = Some (v, [])"
    by (rule parse_value_ser [OF g _ assms]) (simp_all add: number_stop_def)
  moreover have "skip_ws (SerializeJSONProperty ?gap [] v) = SerializeJSONProperty ?gap [] v"
    using ser_starts [of ?gap "[]" v "[]"] by (simp add: skip_ws_starts)
  ultimately show ?thesis
    by (simp add: JSON_parse_def JSON_stringify_def skip_ws_def del: parse_value.simps)
qed

section \<open>Properties: normalization of the tool result\<close>

lemma is_text_item_typed: "item \<noteq> JNull \<Longrightarrow> is_text_item item = Some (text_typed item)"
  by (cases item) (auto simp: is_text_item_def get_property_def text_typed_def split: option.splits json.splits)

lemma filter_text_items_filter:
  "JNull \<notin> set items \<Longrightarrow> filter_text_items items = Some (filter text_typed items)"
  by (induction items) (auto simp: is_text_item_typed)

lemma JSON_stringify_array_nonempty: "JSON_stringify (JArr items) space \<noteq> []"
  by (cases "items = []") (simp_all add: JSON_stringify_def ser_JArr ser_empty del: SerializeJSONProperty.simps)

lemma normalize_array:
  assumes "JNull \<notin> set items"
  shows "normalize_content (JArr items) =
     Inr (JStr (if join [CHR 0x0A, CHR 0x0A] (map item_text (filter text_typed items)) \<noteq> []
                then join [CHR 0x0A, CHR 0x0A] (map item_text (filter text_typed items))
                else JSON_stringify (JArr items) 2))"
  using assms by (simp add: normalize_content_def filter_text_items_filter Let_def)

text \<open>
  Claim C10. When a sequence (with no \<open>null\<close> item) has text items and their texts,
  joined by blank lines, give the empty string, normalization does not return the empty
  string: it returns the pretty-printed serialization of the whole sequence.
\<close>

theorem normalize_content_empty_text_falls_back:
  assumes "JNull \<notin> set items"
    and "filter text_typed items \<noteq> []"
    and "join [CHR 0x0A, CHR 0x0A] (map item_text (filter text_typed items)) = []"
  shows "normalize_content (JArr items) = Inr (JStr (JSON_stringify (JArr items) 2))
         \<and> normalize_content (JArr items) \<noteq> Inr (JStr [])"
  using assms by (simp add: normalize_array JSON_stringify_array_nonempty)

lemma text_item_facts:
  "text_typed (text_item s)" "item_text (text_item s) = s" "text_item s \<noteq> JNull"
  "JNull \<noteq> text_item s"
  by (simp_all add: text_typed_def text_item_def item_text_def get_property_def)

theorem normalize_content_empty_text_falls_back_witness:
  "normalize_content (JArr [text_item ''''])
     = Inr (JStr (JSON_stringify (JArr [text_item '''']) 2))
   \<and> normalize_content (JArr [text_item '''']) \<noteq> Inr (JStr [])"
proof -
  have "JNull \<notin> set [text_item '''']" "filter text_typed [text_item ''''] \<noteq> []"
    "join [CHR 0x0A, CHR 0x0A] (map item_text (filter text_typed [text_item ''''])) = []"
    by (simp_all add: text_item_facts)
  then show ?thesis by (rule normalize_content_empty_text_falls_back)
qed

text \<open>
  Claim C5, as stated, has the fallback only when the sequence has no text item. The
  sequence of the one item \<open>{type: "text", text: ""}\<close> has a text item, and the output is
  not the concatenation of the texts.
\<close>

theorem normalize_content_text_items_counterexample:
  "filter text_typed [text_item ''''] \<noteq> []
   \<and> normalize_content (JArr [text_item ''''])
       \<noteq> Inr (JStr (join [CHR 0x0A, CHR 0x0A] (map item_text (filter text_typed [text_item '''']))))"
  by (simp add: normalize_array text_item_facts JSON_stringify_array_nonempty)

text \<open>
  Claim C5, amended. For a sequence with no \<open>null\<close> item the output is the texts of its
  text items joined by blank lines when that is not empty, and the pretty-printed
  serialization of the whole sequence otherwise; an object is pretty-printed; a string is
  left as it is. The two text items \<open>A\<close> and \<open>B\<close> give \<open>A\<close>, a blank line, \<open>B\<close>. The
  pretty-printed serialization of a sequence without text or of an object parses back to
  the original value (numbers being safe integers, property names distinct).
\<close>

theorem normalize_content_cases:
  "(JNull \<notin> set items \<longrightarrow>
      normalize_content (JArr items) =
        Inr (JStr (if join [CHR 0x0A, CHR 0x0A] (map item_text (filter text_typed items)) \<noteq> []
                   then join [CHR 0x0A, CHR 0x0A] (map item_text (filter text_typed items))
                   else JSON_stringify (JArr items) 2)))
   \<and> normalize_content (JObj ps) = Inr (JStr (JSON_stringify (JObj ps) 2))
   \<and> normalize_content (JStr s) = Inr (JStr s)
   \<and> normalize_content (JArr [text_item ''A'', text_item ''B'']) = Inr (JStr [CHR ''A'', CHR 0x0A, CHR 0x0A, CHR ''B''])
   \<and> (JNull \<notin> set items \<and> json_wf (JArr items)
        \<and> join [CHR 0x0A, CHR 0x0A] (map item_text (filter text_typed items)) = [] \<longrightarrow>
        (\<exists>out. normalize_content (JArr items) = Inr (JStr out) \<and> JSON_parse out = Some (JArr items)))
   \<and> (json_wf (JObj ps) \<longrightarrow>
        (\<exists>out. normalize_content (JObj ps) = Inr (JStr out) \<and> JSON_parse out = Some (JObj ps)))"
proof -
  have ab: "normalize_content (JArr [text_item ''A'', text_item ''B'']) = Inr (JStr [CHR ''A'', CHR 0x0A, CHR 0x0A, CHR ''B''])"
    by (subst normalize_array) (simp_all add: text_item_facts)
  have obj: "normalize_content (JObj ps) = Inr (JStr (JSON_stringify (JObj ps) 2))"
    by (simp add: normalize_content_def)
  have str: "normalize_content (JStr s) = Inr (JStr s)"
    by (simp add: normalize_content_def)
  have rt_obj: "json_wf (JObj ps) \<longrightarrow>
        (\<exists>out. normalize_content (JObj ps) = Inr (JStr out) \<and> JSON_parse out = Some (JObj ps))"
    using obj JSON_parse_stringify [of "JObj ps" 2] by (simp del: json_wf.simps)
  have rt_arr: "JNull \<notin> set items \<and> json_wf (JArr items)
        \<and> join [CHR 0x0A, CHR 0x0A] (map item_text (filter text_typed items)) = [] \<longrightarrow>
        (\<exists>out. normalize_content (JArr items) = Inr (JStr out) \<and> JSON_parse out = Some (JArr items))"
    using normalize_array [of items] JSON_parse_stringify [of "JArr items" 2]
    by (simp del: json_wf.simps)
  show ?thesis using ab obj str rt_obj rt_arr normalize_array [of items] by blast
qed

theorem normalize_content_cases_witness:
  "normalize_content (JArr [JObj [(''type'', JStr ''image''), (''size'', JNum 3)]])
     = Inr (JStr (JSON_stringify (JArr [JObj [(''type'', JStr ''image''), (''size'', JNum 3)]]) 2))
   \<and> (\<exists>out. normalize_content (JArr [JObj [(''type'', JStr ''image''), (''size'', JNum 3)]]) = Inr (JStr out)
          \<and> JSON_parse out = Some (JArr [JObj [(''type'', JStr ''image''), (''size'', JNum 3)]]))
   \<and> (\<exists>out. normalize_content (JObj [(''temp'', JNum 21)]) = Inr (JStr out)
          \<and> JSON_parse out = Some (JObj [(''temp'', JNum 21)]))"
proof -
  let ?items = "[JObj [(''type'', JStr ''image''), (''size'', JNum 3)]]"
  let ?ps = "[(''temp'', JNum 21)]"
  have a: "JNull \<notin> set ?items" by simp
  have b: "json_wf (JArr ?items)" "json_wf (JObj ?ps)" by simp_all
  have c: "join [CHR 0x0A, CHR 0x0A] (map item_text (filter text_typed ?items)) = []"
    by (simp add: text_typed_def)
  note th = normalize_content_cases [of ?items ?ps "''x''"]
  from th a have 1: "normalize_content (JArr ?items) =
        Inr (JStr (if join [CHR 0x0A, CHR 0x0A] (map item_text (filter text_typed ?items)) \<noteq> []
                   then join [CHR 0x0A, CHR 0x0A] (map item_text (filter text_typed ?items))
                   else JSON_stringify (JArr ?items) 2))"
    by blast
  from th a b c have 2: "\<exists>out. normalize_content (JArr ?items) = Inr (JStr out)
          \<and> JSON_parse out = Some (JArr ?items)"
    by blast
  from th b have 3: "\<exists>out. normalize_content (JObj ?ps) = Inr (JStr out)
          \<and> JSON_parse out = Some (JObj ?ps)"
    by blast
  from 1 [unfolded c] have "normalize_content (JArr ?items) = Inr (JStr (JSON_stringify (JArr ?items) 2))"
    by simp
  with 2 3 show ?thesis by blast
qed

section \<open>Properties: argument synthesis\<close>

lemma processQuery_by_match:
  assumes "generateContent e (ArgumentPrompt query (argument_toolListText ts)) = Some reply"
  shows "(match_tool_call (trim reply) = None \<longrightarrow>
            processQuery e mcp ts query w = (Inl (ArgumentSynthesisError (trim reply)), w))
       \<and> (\<forall>g1 g2. match_tool_call (trim reply) = Some (g1, g2) \<longrightarrow>
            (jsonParse e g2 = None \<longrightarrow> processQuery e mcp ts query w = (Inl JSONSyntaxError, w))
          \<and> (\<forall>toolArgs. jsonParse e g2 = Some toolArgs \<longrightarrow>
               tool_calls (snd (processQuery e mcp ts query w))
                 = tool_calls w @ [(mcp, trim g1, toolArgs)]))"
  using assms
  by (auto simp: processQuery_def callTool_def Let_def split: option.splits sum.splits)

text \<open>
  Claim C6, amended. The reply to the argument prompt, with its surrounding white space
  trimmed, decides the outcome. If nowhere in it \<open>name=\<close> is followed on its line by a
  comma, white space, \<open>args=\<close> and an opening brace with a closing brace on that line, the
  query fails with \<open>ArgumentSynthesisError\<close> carrying the trimmed reply. Otherwise the reply
  has a parse: the tool name is the text between the first such \<open>name=\<close> and the first
  comma after it that \<open>args=\<close> and braces follow, trimmed; the blob goes from that opening
  brace to the last closing brace of its line. A blob that \<open>JSON.parse\<close> rejects fails with
  the syntax error of \<open>JSON.parse\<close>; in both failures nothing is sent to the backend.
  Otherwise the one request sent to the backend has that name and the parsed arguments.
\<close>

theorem processQuery_reply_outcomes:
  assumes "generateContent e (ArgumentPrompt query (argument_toolListText ts)) = Some reply"
  shows "(\<not> (\<exists>pre p r. key_pair_at ''name='' ''args='' (trim reply) pre p r \<and> has_braces r) \<longrightarrow>
            processQuery e mcp ts query w = (Inl (ArgumentSynthesisError (trim reply)), w))
       \<and> ((\<exists>pre p r. key_pair_at ''name='' ''args='' (trim reply) pre p r \<and> has_braces r) \<longrightarrow>
            (\<exists>g1 g2. tool_call_parse (trim reply) g1 g2))
       \<and> (\<forall>g1 g2. tool_call_parse (trim reply) g1 g2 \<longrightarrow>
            (jsonParse e g2 = None \<longrightarrow> processQuery e mcp ts query w = (Inl JSONSyntaxError, w))
          \<and> (\<forall>toolArgs. jsonParse e g2 = Some toolArgs \<longrightarrow>
               tool_calls (snd (processQuery e mcp ts query w))
                 = tool_calls w @ [(mcp, trim g1, toolArgs)]))"
proof (intro conjI)
  note m = processQuery_by_match [OF assms, of mcp w]
  show "\<not> (\<exists>pre p r. key_pair_at ''name='' ''args='' (trim reply) pre p r \<and> has_braces r) \<longrightarrow>
            processQuery e mcp ts query w = (Inl (ArgumentSynthesisError (trim reply)), w)"
    using m [THEN conjunct1] unfolding match_tool_call_None_iff .
  show "(\<exists>pre p r. key_pair_at ''name='' ''args='' (trim reply) pre p r \<and> has_braces r) \<longrightarrow>
            (\<exists>g1 g2. tool_call_parse (trim reply) g1 g2)"
  proof
    assume "\<exists>pre p r. key_pair_at ''name='' ''args='' (trim reply) pre p r \<and> has_braces r"
    then have "match_tool_call (trim reply) \<noteq> None" unfolding match_tool_call_None_iff by simp
    then obtain g1 g2 where "match_tool_call (trim reply) = Some (g1, g2)" by auto
    then have "tool_call_parse (trim reply) g1 g2" unfolding match_tool_call_parse .
    then show "\<exists>g1 g2. tool_call_parse (trim reply) g1 g2" by (intro exI)
  qed
  show "\<forall>g1 g2. tool_call_parse (trim reply) g1 g2 \<longrightarrow>
            (jsonParse e g2 = None \<longrightarrow> processQuery e mcp ts query w = (Inl JSONSyntaxError, w))
          \<and> (\<forall>toolArgs. jsonParse e g2 = Some toolArgs \<longrightarrow>
               tool_calls (snd (processQuery e mcp ts query w))
                 = tool_calls w @ [(mcp, trim g1, toolArgs)])"
    using m [THEN conjunct2] unfolding match_tool_call_parse .
qed

text \<open>
  Claim C6, as stated, has a reply that matches the pattern with an argument blob that is
  not JSON fail with the error of a pattern mismatch. On \<open>name=get_weather, args={x}\<close> the
  failure is the syntax error of \<open>JSON.parse\<close>.
\<close>

theorem processQuery_invalid_json_counterexample:
  "processQuery (env_weather ''path=/srv/weather.js, name=get_weather'' ''name=get_weather, args={x}'')
     0 [get_weather] ''weather in Tokyo?'' world0 = (Inl JSONSyntaxError, world0)
   \<and> fst (processQuery (env_weather ''path=/srv/weather.js, name=get_weather'' ''name=get_weather, args={x}'')
     0 [get_weather] ''weather in Tokyo?'' world0)
       \<noteq> Inl (ArgumentSynthesisError ''name=get_weather, args={x}'')"
  by code_simp

theorem processQuery_reply_outcomes_witness:
  "tool_call_parse (trim ''name=get_weather, args={}'') ''get_weather'' ''{}''
   \<and> tool_calls (snd (processQuery
      (env_weather ''path=/srv/weather.js, name=get_weather'' ''name=get_weather, args={}'')
      0 [get_weather] ''weather in Tokyo?'' world0))
     = [(0, ''get_weather'', JObj [])]"
proof -
  let ?e = "env_weather ''path=/srv/weather.js, name=get_weather'' ''name=get_weather, args={}''"
  have g: "generateContent ?e (ArgumentPrompt ''weather in Tokyo?'' (argument_toolListText [get_weather]))
             = Some ''name=get_weather, args={}''"
    by (simp add: env_weather_def)
  have m: "match_tool_call (trim ''name=get_weather, args={}'') = Some (''get_weather'', ''{}'')"
    by code_simp
  have tp: "tool_call_parse (trim ''name=get_weather, args={}'') ''get_weather'' ''{}''"
    using m unfolding match_tool_call_parse .
  have p: "jsonParse ?e ''{}'' = Some (JObj [])"
    unfolding env_weather_def by code_simp
  have t: "trim ''get_weather'' = ''get_weather''" by code_simp
  from processQuery_reply_outcomes [OF g, of 0 world0, THEN conjunct2, THEN conjunct2,
      THEN spec, THEN spec, THEN mp, OF tp, THEN conjunct2, THEN spec, THEN mp, OF p]
  have "tool_calls (snd (processQuery ?e 0 [get_weather] ''weather in Tokyo?'' world0))
          = [(0, ''get_weather'', JObj [])]"
    by (simp add: t world0_def)
  with tp show ?thesis by (rule conjI)
qed

section \<open>Properties: the cycle\<close>

text \<open>When the user confirms, the selected connection is closed whatever the invocation does.\<close>

lemma main_cycle_closes_after_invocation:
  assumes "selectServerScript e SERVER_CANDIDATES query w = (Inr (server, t), w1)"
    and "toLowerCase (trim confirm) = ''ok''"
  shows "client server \<notin> set (open_conns (snd (main_cycle process e SERVER_CANDIDATES query confirm w)))"
  using assms by (simp add: main_cycle_def cleanup_def split: prod.splits sum.splits)

text \<open>
  Claim C1. Every connection opened during a cycle is to be closed on every exit other
  than success. With one reachable backend: when the user answers \<open>no\<close> no tool is called,
  and the selected connection stays open; when the model's selection cannot be parsed the
  discovered connection stays open as well.
\<close>

theorem main_cycle_leaves_connection_open:
  "main_cycle processQuery
      (env_weather ''path=/srv/weather.js, name=get_weather'' ''name=get_weather, args={}'')
      [''/srv/down.js'', ''/srv/weather.js''] ''weather in Tokyo?'' ''no'' world0
     = (Declined, \<lparr>next_handle = 1, open_conns = [0],
          launched = [(''node'', ''/srv/down.js''), (''node'', ''/srv/weather.js'')],
          tool_calls = []\<rparr>)
   \<and> main_cycle processQuery
      (env_weather ''I cannot decide'' ''name=get_weather, args={}'')
      [''/srv/down.js'', ''/srv/weather.js''] ''weather in Tokyo?'' ''ok'' world0
     = (SelectionFailed (SelectionParseError ''I cannot decide''),
        \<lparr>next_handle = 1, open_conns = [0],
          launched = [(''node'', ''/srv/down.js''), (''node'', ''/srv/weather.js'')],
          tool_calls = []\<rparr>)"
  by code_simp

end
